theory Spec2Isabelle
  imports Complex_Main
begin

section \<open>The payload and the hierarchy nodes\<close>

text \<open>
  The component under study is the class \<open>TreeVisualization\<close> of
  \<^verbatim>\<open>static/js/tree-visualization.js\<close>. It receives a JSON payload, wraps it with
  \<open>d3.hierarchy\<close>, hides and shows subtrees by moving a node's child array between
  its two fields \<open>children\<close> and \<open>_children\<close>, and draws the visible nodes with a keyed
  data join.

  The source only ever tests values for truthiness. \<open>jsval\<close> is the JavaScript value
  found in the \<open>name\<close> field of a payload object (a JSON value; numbers are
  taken as integers); \<open>truthy\<close> is JavaScript's \<open>ToBoolean\<close> on it.
\<close>

datatype jsval = JUndefined | JNull | JBool bool | JNum int | JStr string

fun truthy :: "jsval \<Rightarrow> bool" where
  "truthy JUndefined = False"
| "truthy JNull = False"
| "truthy (JBool b) = b"
| "truthy (JNum n) = (n \<noteq> 0)"
| "truthy (JStr s) = (s \<noteq> [])"

text \<open>
  A payload object: its \<open>name\<close> (\<open>JUndefined\<close> when the field is absent), its
  \<open>type\<close> and its \<open>children\<close> array (\<open>[]\<close> when the field is absent or the array is
  empty: \<open>d3.hierarchy\<close> treats the two alike).
\<close>

datatype tree_data = TreeData (name: jsval) (ntype: string) (td_children: "tree_data list")

text \<open>The argument of \<open>updateTree\<close>: \<open>null\<close>, \<open>undefined\<close> or an object.\<close>

datatype payload = PNull | PUndefined | PObject tree_data

datatype js_error = TypeError

text \<open>
  The scalar fields of a hierarchy node: \<open>d.data\<close>, \<open>d.depth\<close>, \<open>d.id\<close>, and the
  coordinates \<open>d.x\<close>, \<open>d.y\<close>, \<open>d.x0\<close>, \<open>d.y0\<close> (fields \<open>px\<close>, \<open>py\<close>, \<open>px0\<close>,
  \<open>py0\<close>). \<open>None\<close> is a field that is still \<open>undefined\<close>. JavaScript numbers are
  taken as reals; the only arithmetic the class does on coordinates is
  \<open>depth * 180\<close> and \<open>height / 2\<close>.
\<close>

record attrs =
  data :: tree_data
  depth :: nat
  nid :: "nat option"
  px :: "real option"
  py :: "real option"
  px0 :: "real option"
  py0 :: "real option"

text \<open>
  A node with its two child slots: \<open>children\<close> is \<open>d.children\<close> and \<open>uchildren\<close> is
  \<open>d._children\<close>. \<open>None\<close> is a slot holding \<open>undefined\<close> or \<open>null\<close> (the source
  tells the two apart nowhere), \<open>Some cs\<close> a slot holding the array \<open>cs\<close>.
  Ownership runs from the root to the children and \<open>d3.hierarchy\<close> makes one fresh
  object per payload object, so no node is shared; a node is identified by the
  path of child indices that leads to it from the root.
\<close>

datatype node = Node (attrs: attrs) (children: "node list option") (uchildren: "node list option")

type_synonym path = "nat list"

text \<open>
  \<open>d3.hierarchy(data)\<close>, as the library documents it: one node per payload
  object, \<open>depth\<close> 0 at the root and one more at each level, \<open>children\<close> set only
  where the payload's array is non-empty, nothing else set.
\<close>

fun hierarchy_at :: "nat \<Rightarrow> tree_data \<Rightarrow> node" where
  "hierarchy_at k (TreeData nm ty cs) =
     Node \<lparr>data = TreeData nm ty cs, depth = k, nid = None,
           px = None, py = None, px0 = None, py0 = None\<rparr>
       (if cs = [] then None else Some (map (hierarchy_at (Suc k)) cs)) None"

definition hierarchy :: "tree_data \<Rightarrow> node" where
  "hierarchy d = hierarchy_at 0 d"

subsection \<open>Collapse, expand, toggle\<close>

text \<open>
  \<^verbatim>\<open>collapse(d) { if (d.children) { d._children = d.children;
      d._children.forEach(child => this.collapse(child)); d.children = null; } }\<close>
\<close>

fun collapse :: "node \<Rightarrow> node" where
  "collapse (Node a c h) =
     (case c of
        Some cs \<Rightarrow> Node a None (Some (map collapse cs))
      | None \<Rightarrow> Node a c h)"

text \<open>
  The local function of \<open>expandAll\<close>:
  \<^verbatim>\<open>expand = (d) => { if (d._children) { d.children = d._children; d._children = null; }
      if (d.children) { d.children.forEach(expand); } }\<close>
\<close>

fun expand :: "node \<Rightarrow> node" where
  "expand (Node a c h) =
     (case h of
        Some hs \<Rightarrow> Node a (Some (map expand hs)) None
      | None \<Rightarrow>
          (case c of
             Some cs \<Rightarrow> Node a (Some (map expand cs)) h
           | None \<Rightarrow> Node a c h))"

text \<open>
  What \<open>toggleNode(event, d)\<close> does to \<open>d\<close> before it renders:
  \<^verbatim>\<open>if (d.children) { d._children = d.children; d.children = null; }
  else { d.children = d._children; d._children = null; }\<close>
\<close>

fun toggle_children :: "node \<Rightarrow> node" where
  "toggle_children (Node a c h) =
     (case c of
        Some cs \<Rightarrow> Node a None (Some cs)
      | None \<Rightarrow> Node a h None)"

subsection \<open>Paths: reading and mutating one node of the tree\<close>

text \<open>
  The children a node owns, in whichever slot they stand (\<open>children\<close> first).
\<close>

definition kids :: "node \<Rightarrow> node list" where
  "kids n = (case children n of
               Some cs \<Rightarrow> cs
             | None \<Rightarrow> (case uchildren n of Some hs \<Rightarrow> hs | None \<Rightarrow> []))"

fun node_at :: "path \<Rightarrow> node \<Rightarrow> node option" where
  "node_at [] n = Some n"
| "node_at (i # p) n = (if i < length (kids n) then node_at p (kids n ! i) else None)"

text \<open>
  The source mutates node objects in place. \<open>update_at p f r\<close> is the tree \<open>r\<close> after
  the mutation \<open>f\<close> of the node at path \<open>p\<close>; a path that leads to no node of the
  tree leaves the tree as it is.
\<close>

fun update_at :: "path \<Rightarrow> (node \<Rightarrow> node) \<Rightarrow> node \<Rightarrow> node" where
  "update_at [] f n = f n"
| "update_at (i # p) f (Node a c h) =
     (case c of
        Some cs \<Rightarrow>
          if i < length cs then Node a (Some (cs[i := update_at p f (cs ! i)])) h
          else Node a c h
      | None \<Rightarrow>
          (case h of
             Some hs \<Rightarrow>
               if i < length hs then Node a c (Some (hs[i := update_at p f (hs ! i)]))
               else Node a c h
           | None \<Rightarrow> Node a c h))"

definition set_attrs :: "(attrs \<Rightarrow> attrs) \<Rightarrow> node \<Rightarrow> node" where
  "set_attrs g n = Node (g (attrs n)) (children n) (uchildren n)"

subsection \<open>The visible nodes\<close>

text \<open>
  \<open>root.descendants()\<close> of d3-hierarchy lists the nodes reached through
  \<open>children\<close> in breadth-first order, the root first. \<open>bfs\<close> is that traversal
  with a queue of (path, node) pairs; it returns the paths.
\<close>

definition vis :: "node \<Rightarrow> node list" where
  "vis n = (case children n of Some cs \<Rightarrow> cs | None \<Rightarrow> [])"

definition enqueue :: "path \<Rightarrow> node \<Rightarrow> (path \<times> node) list" where
  "enqueue p n = map (\<lambda>i. (p @ [i], vis n ! i)) [0..<length (vis n)]"

lemma size_vis_less: "sum_list (map size (vis n)) < size n"
  by (cases n) (auto simp: vis_def size_list_conv_sum_list split: option.splits)

lemma size_enqueue: "sum_list (map (\<lambda>x. size (snd x)) (enqueue p n)) = sum_list (map size (vis n))"
proof -
  have "map (\<lambda>x. size (snd x)) (enqueue p n) = map size (map (\<lambda>i. vis n ! i) [0..<length (vis n)])"
    by (simp add: enqueue_def comp_def)
  then show ?thesis by (simp add: map_nth)
qed

function bfs :: "(path \<times> node) list \<Rightarrow> path list" where
  "bfs [] = []"
| "bfs ((p, n) # q) = p # bfs (q @ enqueue p n)"
  by pat_completeness auto
termination
proof (relation "measure (\<lambda>q. sum_list (map (\<lambda>x. size (snd x)) q))")
  show "wf (measure (\<lambda>q. sum_list (map (\<lambda>x. size (snd x)) q)))" by simp
next
  fix p :: path and n :: node and q :: "(path \<times> node) list"
  show "(q @ enqueue p n, (p, n) # q) \<in> measure (\<lambda>q. sum_list (map (\<lambda>x. size (snd x)) q))"
    using size_vis_less [of n] by (simp add: size_enqueue)
qed

definition descendants :: "node \<Rightarrow> path list" where
  "descendants r = bfs [([], r)]"

definition visible_nodes :: "node \<Rightarrow> node list" where
  "visible_nodes r = List.map_filter (\<lambda>p. node_at p r) (descendants r)"

text \<open>
  The node reached from \<open>n\<close> along \<open>p\<close> through \<open>children\<close> slots only: a node is
  visible when such a path leads to it.
\<close>

fun visible_at :: "path \<Rightarrow> node \<Rightarrow> node option" where
  "visible_at [] n = Some n"
| "visible_at (i # p) n = (if i < length (vis n) then visible_at p (vis n ! i) else None)"

section \<open>The visualization state and its operations\<close>

text \<open>
  A drawn \<open>.node\<close> element of the group \<open>this.g\<close>: the key it was joined by
  (\<open>d.id\<close>) and the two arguments of its \<open>translate(..., ...)\<close> transform.
\<close>

record elem =
  ekey :: "nat option"
  etransform :: "real option \<times> real option"

text \<open>
  \<open>style.display\<close> of the element \<open>emptyState\<close>: as the page left it, \<open>'block'\<close>
  or \<open>'none'\<close>.
\<close>

datatype display = Unset | Block | Hidden

text \<open>
  The fields of a constructed \<open>TreeVisualization\<close>: \<open>root\<close> (\<open>None\<close> is
  \<open>null\<close>), the counter \<open>nodeId\<close>, \<open>width\<close> and \<open>height\<close>, the element
  \<open>emptyState\<close> (\<open>None\<close> when \<open>getElementById\<close> found none), and \<open>scene\<close>, the
  \<open>.node\<close> elements that stand in \<open>this.g\<close> once the transitions of the last render
  have ended (the exit selection removed). The zoom transform is kept by d3-zoom
  on the \<open>svg\<close> element, not by the class.
\<close>

record viz =
  root :: "node option"
  nodeId :: nat
  width :: real
  height :: real
  emptyState :: "display option"
  scene :: "elem list"

text \<open>
  \<open>this.tree\<close> is the layout function \<open>d3.tree().size([h, w])\<close> of the library. It
  is a parameter here: \<open>T (h, w) r p\<close> is the \<open>x\<close> that the layout of size
  \<open>[h, w]\<close>, run on root \<open>r\<close>, gives the visible node at path \<open>p\<close>.
\<close>

type_synonym layout = "real \<times> real \<Rightarrow> node \<Rightarrow> path \<Rightarrow> real"

text \<open>\<open>nodes.forEach(d => ...)\<close>: the assignment \<open>g\<close> on each listed node in turn.\<close>

definition forEach :: "path list \<Rightarrow> (path \<Rightarrow> attrs \<Rightarrow> attrs) \<Rightarrow> node \<Rightarrow> node" where
  "forEach ps g r = foldl (\<lambda>r' p. update_at p (set_attrs (g p)) r') r ps"

text \<open>
  The key function of both joins, \<^verbatim>\<open>d => d.id || (d.id = ++this.nodeId)\<close>, on the
  node at path \<open>p\<close>; the state is the tree and the counter. An id is falsy when it
  is \<open>undefined\<close> or 0.
\<close>

definition id_falsy :: "nat option \<Rightarrow> bool" where
  "id_falsy i = (case i of None \<Rightarrow> True | Some k \<Rightarrow> k = 0)"

definition key_fn :: "path \<Rightarrow> node \<times> nat \<Rightarrow> node \<times> nat" where
  "key_fn p st =
     (case st of (r, k) \<Rightarrow>
        (case node_at p r of
           None \<Rightarrow> (r, k)
         | Some n \<Rightarrow>
             if id_falsy (nid (attrs n))
             then (update_at p (set_attrs (\<lambda>a. a\<lparr>nid := Some (Suc k)\<rparr>)) r, Suc k)
             else (r, k)))"

text \<open>
  \<open>selection.data(ds, key)\<close> calls the key function on the datum of every element
  already drawn, then on every new datum in order. The drawn elements' data were
  keyed when they were joined, so only the calls on the new data can assign.
\<close>

definition data_join :: "path list \<Rightarrow> node \<times> nat \<Rightarrow> node \<times> nat" where
  "data_join ps st = foldl (\<lambda>st' p. key_fn p st') st ps"

text \<open>
  The first half of \<open>render\<close>, up to the two joins: the layout
  \<open>this.tree(this.root)\<close> (size: height and width less the margins of 20), then
  \<open>d.y = d.depth * 180\<close> on every visible node, then the key function over
  \<open>links = descendants().slice(1)\<close> and over \<open>nodes = descendants()\<close>.
\<close>

definition joined :: "layout \<Rightarrow> viz \<Rightarrow> node \<Rightarrow> node \<times> nat" where
  "joined T s r =
     (let ds = descendants r;
          r1 = forEach ds (\<lambda>p a. a\<lparr>px := Some (T (height s - 20 - 20, width s - 20 - 20) r p)\<rparr>) r;
          r2 = forEach ds (\<lambda>p a. a\<lparr>py := Some (real (depth a) * 180)\<rparr>) r1
      in data_join ds (data_join (tl ds) (r2, nodeId s)))"

text \<open>
  The enter selection of the node join, with the transform each new element is
  given: \<^verbatim>\<open>.attr('transform', d => `translate(${this.root.y0},${this.root.x0})`)\<close>.
  A datum enters when no drawn element has its key.
\<close>

definition nodeEnter :: "layout \<Rightarrow> viz \<Rightarrow> elem list" where
  "nodeEnter T s =
     (case root s of
        None \<Rightarrow> []
      | Some r \<Rightarrow>
          (let r4 = fst (joined T s r)
           in map (\<lambda>n. \<lparr>ekey = nid (attrs n), etransform = (py0 (attrs r4), px0 (attrs r4))\<rparr>)
                (filter (\<lambda>n. nid (attrs n) \<notin> set (map ekey (scene s))) (visible_nodes r4))))"

text \<open>
  \<open>render()\<close>: nothing without a root; else the layout and the joins, every
  joined element moved to \<open>translate(d.y, d.x)\<close>, and at the end
  \<open>d.x0 = d.x; d.y0 = d.y\<close> on every visible node.
\<close>

definition render :: "layout \<Rightarrow> viz \<Rightarrow> viz" where
  "render T s =
     (case root s of
        None \<Rightarrow> s
      | Some r \<Rightarrow>
          (let (r4, k) = joined T s r;
               sc = map (\<lambda>n. \<lparr>ekey = nid (attrs n), etransform = (py (attrs n), px (attrs n))\<rparr>)
                      (visible_nodes r4);
               r5 = forEach (descendants r4) (\<lambda>p a. a\<lparr>px0 := px a, py0 := py a\<rparr>) r4
           in s\<lparr>root := Some r5, nodeId := k, scene := sc\<rparr>))"

definition showEmptyState :: "viz \<Rightarrow> viz" where
  "showEmptyState s = s\<lparr>emptyState := map_option (\<lambda>_. Block) (emptyState s)\<rparr>"

definition hideEmptyState :: "viz \<Rightarrow> viz" where
  "hideEmptyState s = s\<lparr>emptyState := map_option (\<lambda>_. Hidden) (emptyState s)\<rparr>"

text \<open>
  \<^verbatim>\<open>clearTree() { this.showEmptyState();
      if (this.g) { this.g.selectAll('*').remove(); } this.root = null; }\<close>
  (\<open>this.g\<close> is set by the constructor and never unset.)
\<close>

definition clearTree :: "viz \<Rightarrow> viz" where
  "clearTree s = (showEmptyState s)\<lparr>scene := [], root := None\<rparr>"

text \<open>
  Reading \<open>treeData.name\<close> throws a \<open>TypeError\<close> when \<open>treeData\<close> is \<open>null\<close> or
  \<open>undefined\<close>.
\<close>

fun payload_truthy :: "payload \<Rightarrow> bool" where
  "payload_truthy PNull = False"
| "payload_truthy PUndefined = False"
| "payload_truthy (PObject d) = True"

fun get_name :: "payload \<Rightarrow> js_error + jsval" where
  "get_name PNull = Inl TypeError"
| "get_name PUndefined = Inl TypeError"
| "get_name (PObject d) = Inr (name d)"

text \<open>
  The guard of \<open>updateTree\<close>, \<^verbatim>\<open>!treeData || !treeData.name\<close>: the right operand is
  evaluated only when the left one is false.
\<close>

definition no_data :: "payload \<Rightarrow> js_error + bool" where
  "no_data treeData =
     (if \<not> payload_truthy treeData then Inr True
      else (case get_name treeData of Inl e \<Rightarrow> Inl e | Inr nm \<Rightarrow> Inr (\<not> truthy nm)))"

text \<open>
  The default collapse of \<open>updateTree\<close>:
  \<^verbatim>\<open>this.root.children?.forEach(child => { if (child.children) { this.collapse(child); } })\<close>
\<close>

definition collapse_children :: "node \<Rightarrow> node" where
  "collapse_children r =
     (case children r of
        None \<Rightarrow> r
      | Some cs \<Rightarrow>
          Node (attrs r)
            (Some (map (\<lambda>child. if children child \<noteq> None then collapse child else child) cs))
            (uchildren r))"

text \<open>
  The rest of \<open>updateTree\<close>, past the guard: \<open>d3.hierarchy(treeData)\<close> (which reads
  \<open>treeData.children\<close>, a \<open>TypeError\<close> on \<open>null\<close>), \<open>root.x0 = height / 2\<close>,
  \<open>root.y0 = 0\<close>, the default collapse, \<open>render()\<close>. The closing \<open>centerTree()\<close>
  acts on the zoom transform only.
\<close>

fun build :: "layout \<Rightarrow> payload \<Rightarrow> viz \<Rightarrow> js_error + viz" where
  "build T (PObject d) s =
     (let s1 = hideEmptyState s;
          r = set_attrs (\<lambda>a. a\<lparr>px0 := Some (height s1 / 2), py0 := Some 0\<rparr>) (hierarchy d)
      in Inr (render T (s1\<lparr>root := Some (collapse_children r)\<rparr>)))"
| "build T PNull s = Inl TypeError"
| "build T PUndefined s = Inl TypeError"

definition updateTree :: "layout \<Rightarrow> payload \<Rightarrow> viz \<Rightarrow> js_error + viz" where
  "updateTree T treeData s =
     (case no_data treeData of
        Inl e \<Rightarrow> Inl e
      | Inr True \<Rightarrow> Inr (clearTree s)
      | Inr False \<Rightarrow> build T treeData s)"

text \<open>
  \<open>toggleNode(event, d)\<close>, \<open>d\<close> being the node at path \<open>p\<close> of the current tree: the
  exchange of the two slots, then \<open>render()\<close>.
\<close>

definition toggleNode :: "layout \<Rightarrow> path \<Rightarrow> viz \<Rightarrow> viz" where
  "toggleNode T p s =
     render T (s\<lparr>root := map_option (update_at p toggle_children) (root s)\<rparr>)"

definition expandAll :: "layout \<Rightarrow> viz \<Rightarrow> viz" where
  "expandAll T s =
     (case root s of
        None \<Rightarrow> s
      | Some r \<Rightarrow> render T (s\<lparr>root := Some (expand r)\<rparr>))"

text \<open>
  \<^verbatim>\<open>collapseAll() { if (!this.root) return;
      if (this.root.children) { this.root.children.forEach(child => this.collapse(child)); }
      this.render(); }\<close>
\<close>

definition collapseAll :: "layout \<Rightarrow> viz \<Rightarrow> viz" where
  "collapseAll T s =
     (case root s of
        None \<Rightarrow> s
      | Some r \<Rightarrow>
          render T (s\<lparr>root := Some (case children r of
                                       None \<Rightarrow> r
                                     | Some cs \<Rightarrow> Node (attrs r) (Some (map collapse cs)) (uchildren r))\<rparr>))"

text \<open>
  \<open>updateDimensions()\<close> on a container rectangle of width \<open>w\<close> and height \<open>h\<close>:
  \<^verbatim>\<open>this.width = containerRect.width || 800;
  this.height = Math.max(containerRect.height || 500, 500);\<close>
  and the resize observer's callback, which renders when there is a root.
\<close>

definition updateDimensions :: "real \<Rightarrow> real \<Rightarrow> viz \<Rightarrow> viz" where
  "updateDimensions w h s =
     s\<lparr>width := (if w = 0 then 800 else w), height := max (if h = 0 then 500 else h) 500\<rparr>"

definition resize :: "layout \<Rightarrow> real \<Rightarrow> real \<Rightarrow> viz \<Rightarrow> viz" where
  "resize T w h s = render T (updateDimensions w h s)"

text \<open>
  The state the constructor leaves: no root, the prototype's counter 0, the
  container's dimensions, nothing drawn.
\<close>

definition init :: "real \<Rightarrow> real \<Rightarrow> display option \<Rightarrow> viz" where
  "init w h es =
     updateDimensions w h
       \<lparr>root = None, nodeId = 0, width = 0, height = 500, emptyState = es, scene = []\<rparr>"

subsection \<open>Sequences of operations\<close>

datatype op =
    UpdateTree payload
  | ToggleNode path
  | Collapse path
  | ExpandAll
  | CollapseAll
  | ClearTree
  | Resize real real

text \<open>
  One operation on the state. \<open>updateTree\<close> never throws (lemma
  \<open>updateTree_total\<close> below), so its error branch keeps the state. \<open>Collapse p\<close> is
  \<open>collapse(d)\<close> alone, on the node at path \<open>p\<close>.
\<close>

fun exec :: "layout \<Rightarrow> op \<Rightarrow> viz \<Rightarrow> viz" where
  "exec T (UpdateTree treeData) s = (case updateTree T treeData s of Inr s' \<Rightarrow> s' | Inl e \<Rightarrow> s)"
| "exec T (ToggleNode p) s = toggleNode T p s"
| "exec T (Collapse p) s = s\<lparr>root := map_option (update_at p collapse) (root s)\<rparr>"
| "exec T ExpandAll s = expandAll T s"
| "exec T CollapseAll s = collapseAll T s"
| "exec T ClearTree s = clearTree s"
| "exec T (Resize w h) s = resize T w h s"

definition run :: "layout \<Rightarrow> op list \<Rightarrow> viz \<Rightarrow> viz" where
  "run T ops s = foldl (\<lambda>s' o'. exec T o' s') s ops"

subsection \<open>The fit-to-content scale of \<open>centerTree\<close>\<close>

text \<open>
  \<open>bounds = this.g.node().getBBox()\<close> is measured by the browser; it is an input
  here.
  \<^verbatim>\<open>const scale = 0.9 / Math.max(fullWidth / this.width, fullHeight / this.height);
  const translate = [this.width / 2 - scale * centerX, this.height / 2 - scale * centerY];\<close>
  The transform goes to \<open>this.zoom.transform\<close> as it is computed. \<open>NoCall\<close> is the
  early return without a root; \<open>NonFinite\<close> is the division \<open>0.9 / 0\<close>, which
  JavaScript evaluates to \<open>Infinity\<close>.
\<close>

record bbox =
  bx :: real
  by' :: real
  bwidth :: real
  bheight :: real

datatype zoom_call = NoCall | NonFinite | Transform real real real

definition fit_scale :: "real \<Rightarrow> real \<Rightarrow> bbox \<Rightarrow> real option" where
  "fit_scale w h b =
     (let m = max (bwidth b / w) (bheight b / h)
      in if m = 0 then None else Some (0.9 / m))"

definition centerTree :: "viz \<Rightarrow> bbox \<Rightarrow> zoom_call" where
  "centerTree s b =
     (case root s of
        None \<Rightarrow> NoCall
      | Some r \<Rightarrow>
          (let centerX = bx b + bwidth b / 2;
               centerY = by' b + bheight b / 2
           in case fit_scale (width s) (height s) b of
                None \<Rightarrow> NonFinite
              | Some scale \<Rightarrow>
                  Transform (width s / 2 - scale * centerX) (height s / 2 - scale * centerY) scale))"

section \<open>What the operations keep\<close>

subsection \<open>Structure: the tree without what \<open>render\<close> writes\<close>

text \<open>
  \<open>render\<close> writes ids and coordinates and nothing else. \<open>struct\<close> forgets those
  fields everywhere in the tree; it keeps the payload, the depth and which slot
  holds which children.
\<close>

definition erase :: "attrs \<Rightarrow> attrs" where
  "erase a = a\<lparr>nid := None, px := None, py := None, px0 := None, py0 := None\<rparr>"

fun struct :: "node \<Rightarrow> node" where
  "struct (Node a c h) = Node (erase a) (map_option (map struct) c) (map_option (map struct) h)"

text \<open>
  The invariant of the two slots, against the payload: a node whose payload has
  children holds them, in the payload's order, in exactly one slot, and the other
  slot is empty; a node whose payload has none has both slots empty. It holds
  through both slots, at every depth.
\<close>

fun wf_node :: "node \<Rightarrow> bool" where
  "wf_node (Node a c h) =
     (case c of
        Some cs \<Rightarrow>
          h = None \<and> cs \<noteq> [] \<and> map (\<lambda>n. data (attrs n)) cs = td_children (data a)
          \<and> (\<forall>n \<in> set cs. wf_node n)
      | None \<Rightarrow>
          (case h of
             Some hs \<Rightarrow>
               hs \<noteq> [] \<and> map (\<lambda>n. data (attrs n)) hs = td_children (data a)
               \<and> (\<forall>n \<in> set hs. wf_node n)
           | None \<Rightarrow> td_children (data a) = []))"

text \<open>Every node of a tree, through both slots.\<close>

fun all_nodes :: "node \<Rightarrow> node list" where
  "all_nodes (Node a c h) =
     Node a c h #
       (case c of Some cs \<Rightarrow> concat (map all_nodes cs) | None \<Rightarrow> [])
       @ (case h of Some hs \<Rightarrow> concat (map all_nodes hs) | None \<Rightarrow> [])"

definition nonempty :: "node list option \<Rightarrow> bool" where
  "nonempty slot = (case slot of Some (x # xs) \<Rightarrow> True | _ \<Rightarrow> False)"

text \<open>
  A node all of whose descendants are hidden: its \<open>children\<close> slot is empty, and
  so is that of every node below it.
\<close>

fun fully_collapsed :: "node \<Rightarrow> bool" where
  "fully_collapsed (Node a c h) =
     (c = None \<and> (case h of None \<Rightarrow> True | Some hs \<Rightarrow> \<forall>n \<in> set hs. fully_collapsed n))"

text \<open>
  The payload that the visible part of a tree shows: each visible node's name and
  type, with the nodes of its \<open>children\<close> slot below it.
\<close>

fun vis_tree :: "node \<Rightarrow> tree_data" where
  "vis_tree (Node a c h) =
     TreeData (name (data a)) (ntype (data a))
       (case c of None \<Rightarrow> [] | Some cs \<Rightarrow> map vis_tree cs)"

text \<open>
  The invariant of the state: the tree, when there is one, satisfies the slot
  invariant and its root's name is truthy.
\<close>

definition tree_ok :: "viz \<Rightarrow> bool" where
  "tree_ok s =
     (case root s of None \<Rightarrow> True | Some r \<Rightarrow> wf_node r \<and> truthy (name (data (attrs r))))"

text \<open>
  The \<open>depth\<close> field against the place in the tree: a node \<open>k\<close> steps below the
  root has depth \<open>k\<close>, through both slots.
\<close>

fun depth_ok :: "nat \<Rightarrow> node \<Rightarrow> bool" where
  "depth_ok k (Node a c h) =
     (depth a = k
      \<and> (case c of None \<Rightarrow> True | Some cs \<Rightarrow> \<forall>n \<in> set cs. depth_ok (Suc k) n)
      \<and> (case h of None \<Rightarrow> True | Some hs \<Rightarrow> \<forall>n \<in> set hs. depth_ok (Suc k) n))"

definition depth_inv :: "viz \<Rightarrow> bool" where
  "depth_inv s = (case root s of None \<Rightarrow> True | Some r \<Rightarrow> depth_ok 0 r)"

subsection \<open>Ids along paths\<close>

text \<open>
  The scalar fields of the node at a path, and the id of the node at a path of
  the current tree (\<open>None\<close> where there is no such node or it has no id yet).
\<close>

definition attrs_at :: "path \<Rightarrow> node \<Rightarrow> attrs option" where
  "attrs_at p r = map_option attrs (node_at p r)"

definition id_at :: "viz \<Rightarrow> path \<Rightarrow> nat option" where
  "id_at s p =
     (case root s of
        None \<Rightarrow> None
      | Some r \<Rightarrow> (case attrs_at p r of None \<Rightarrow> None | Some a \<Rightarrow> nid a))"

text \<open>
  The previous position \<open>(d.y0, d.x0)\<close> of the node at a path of the current
  tree, and the element that \<open>render\<close> draws for a node: its key and
  \<open>translate(d.y, d.x)\<close>.
\<close>

definition pos0_at :: "viz \<Rightarrow> path \<Rightarrow> (real option \<times> real option) option" where
  "pos0_at s p =
     (case root s of
        None \<Rightarrow> None
      | Some r \<Rightarrow> map_option (\<lambda>a. (py0 a, px0 a)) (attrs_at p r))"

definition drawn :: "node \<Rightarrow> elem" where
  "drawn n = \<lparr>ekey = nid (attrs n), etransform = (py (attrs n), px (attrs n))\<rparr>"

text \<open>
  The invariant of the ids against the counter: every id in the tree is at least
  1 and at most the counter, and no two nodes have the same id.
\<close>

definition ids_ok :: "node \<Rightarrow> nat \<Rightarrow> bool" where
  "ids_ok r k =
     ((\<forall>p a i. attrs_at p r = Some a \<and> nid a = Some i \<longrightarrow> 0 < i \<and> i \<le> k)
      \<and> (\<forall>p q a b i. attrs_at p r = Some a \<and> attrs_at q r = Some b
             \<and> nid a = Some i \<and> nid b = Some i \<longrightarrow> p = q))"

definition ids_inv :: "viz \<Rightarrow> bool" where
  "ids_inv s = (case root s of None \<Rightarrow> True | Some r \<Rightarrow> ids_ok r (nodeId s))"

text \<open>The operations that keep the tree they find: all but a new payload and a clear.\<close>

fun keeps_tree :: "op \<Rightarrow> bool" where
  "keeps_tree (UpdateTree treeData) = False"
| "keeps_tree ClearTree = False"
| "keeps_tree (ToggleNode p) = True"
| "keeps_tree (Collapse p) = True"
| "keeps_tree ExpandAll = True"
| "keeps_tree CollapseAll = True"
| "keeps_tree (Resize w h) = True"

text \<open>What each tree-keeping operation does to the tree before it renders.\<close>

definition restructured :: "op \<Rightarrow> node \<Rightarrow> node" where
  "restructured o' r =
     (case o' of
        ToggleNode p \<Rightarrow> update_at p toggle_children r
      | Collapse p \<Rightarrow> update_at p collapse r
      | ExpandAll \<Rightarrow> expand r
      | CollapseAll \<Rightarrow> (case children r of None \<Rightarrow> r
                         | Some cs \<Rightarrow> Node (attrs r) (Some (map collapse cs)) (uchildren r))
      | _ \<Rightarrow> r)"

text \<open>
  Names for steps of \<open>render\<close>: whether the key function assigns at a path,
  whether the node at a path (if any) has a truthy id, and the tree after the
  layout and the assignment of \<open>y\<close>.
\<close>

definition fires :: "path \<Rightarrow> node \<Rightarrow> bool" where
  "fires p r = (\<exists>a. attrs_at p r = Some a \<and> id_falsy (nid a))"

definition keyed :: "path \<Rightarrow> node \<Rightarrow> bool" where
  "keyed q r = (case attrs_at q r of None \<Rightarrow> True | Some a \<Rightarrow> \<not> id_falsy (nid a))"

definition laid :: "layout \<Rightarrow> viz \<Rightarrow> node \<Rightarrow> node" where
  "laid T s r =
     forEach (descendants r) (\<lambda>p a. a\<lparr>py := Some (real (depth a) * 180)\<rparr>)
       (forEach (descendants r)
          (\<lambda>p a. a\<lparr>px := Some (T (height s - 20 - 20, width s - 20 - 20) r p)\<rparr>) r)"

text \<open>
  The visible paths of a node, and the paths that a queue of the breadth-first
  traversal still has to list.
\<close>

definition vpaths :: "node \<Rightarrow> path set" where
  "vpaths n = {s. visible_at s n \<noteq> None}"

definition below :: "(path \<times> node) list \<Rightarrow> path set" where
  "below q = (\<Union>x\<in>set q. (\<lambda>s. fst x @ s) ` vpaths (snd x))"

subsection \<open>Sample inputs\<close>

text \<open>
  The payload of the specification's scenario (root, one group \<open>E1\<close>, one entity
  \<open>cat\<close> below it), a payload whose root is named by the empty string, and a
  layout that puts every node at the middle of the layout's height.
\<close>

definition scenario :: tree_data where
  "scenario =
     TreeData (JStr ''root'') ''root''
       [TreeData (JStr ''E1'') ''entity_group'' [TreeData (JStr ''cat'') ''entity'' []]]"

definition unnamed_root :: tree_data where
  "unnamed_root = TreeData (JStr []) ''root'' [TreeData (JStr ''E1'') ''entity_group'' []]"

text \<open>The scenario with its root named by the empty string.\<close>

definition unnamed_scenario :: tree_data where
  "unnamed_scenario =
     TreeData (JStr []) ''root''
       [TreeData (JStr ''E1'') ''entity_group'' [TreeData (JStr ''cat'') ''entity'' []]]"

definition mid_layout :: layout where
  "mid_layout sz r p = fst sz / 2"

definition page :: viz where
  "page = init 800 500 (Some Hidden)"

section \<open>Lemmas\<close>

subsection \<open>Structure and the slot invariant\<close>


lemma erase_simps [simp]:
  "data (erase a) = data a" "depth (erase a) = depth a" "erase (erase a) = erase a"
  "erase (a\<lparr>nid := i\<rparr>) = erase a" "erase (a\<lparr>px := x\<rparr>) = erase a" "erase (a\<lparr>py := x\<rparr>) = erase a"
  "erase (a\<lparr>px0 := x\<rparr>) = erase a" "erase (a\<lparr>py0 := x\<rparr>) = erase a"
  by (simp_all add: erase_def)

lemma struct_sel [simp]:
  "attrs (struct n) = erase (attrs n)"
  "children (struct n) = map_option (map struct) (children n)"
  "uchildren (struct n) = map_option (map struct) (uchildren n)"
  by (cases n; simp)+

lemma struct_set_attrs: "erase (g (attrs n)) = erase (attrs n) \<Longrightarrow> struct (set_attrs g n) = struct n"
  by (cases n) (simp add: set_attrs_def)

lemma map_update_same: "i < length xs \<Longrightarrow> f y = f (xs ! i) \<Longrightarrow> map f (xs[i := y]) = map f xs"
  by (simp add: map_update list_update_same_conv)

lemma struct_update_at: "(\<And>m. struct (f m) = struct m) \<Longrightarrow> struct (update_at p f n) = struct n"
proof (induction p arbitrary: n)
  case Nil
  then show ?case by simp
next
  case (Cons i p)
  show ?case
    by (cases n) (auto simp: Cons map_update_same split: option.splits)
qed

lemma struct_update_at_comm:
  "(\<And>m. struct (f m) = f (struct m)) \<Longrightarrow> struct (update_at p f n) = update_at p f (struct n)"
proof (induction p arbitrary: n)
  case Nil
  then show ?case by simp
next
  case (Cons i p)
  show ?case
    by (cases n) (auto simp: Cons map_update split: option.splits)
qed

lemma struct_forEach:
  "(\<And>p a. erase (g p a) = erase a) \<Longrightarrow> struct (forEach ps g r) = struct r"
  unfolding forEach_def
  by (induction ps arbitrary: r) (simp_all add: struct_update_at struct_set_attrs)

lemma struct_key_fn: "struct (fst (key_fn p st)) = struct (fst st)"
  by (cases st) (simp add: key_fn_def struct_update_at struct_set_attrs split: option.splits)

lemma struct_data_join: "struct (fst (data_join ps st)) = struct (fst st)"
  unfolding data_join_def
  by (induction ps arbitrary: st) (simp_all add: struct_key_fn)

lemma struct_joined: "struct (fst (joined T s r)) = struct r"
  by (simp add: joined_def Let_def struct_data_join struct_forEach)

lemma render_None: "root s = None \<Longrightarrow> render T s = s"
  by (simp add: render_def)

lemma render_root:
  assumes "root s = Some r"
  shows "\<exists>r'. root (render T s) = Some r' \<and> struct r' = struct r"
  using assms struct_joined [of T s r]
  by (auto simp: render_def Let_def struct_forEach split: prod.splits)

lemma render_fields [simp]:
  "width (render T s) = width s" "height (render T s) = height s"
  "emptyState (render T s) = emptyState s"
  by (simp_all add: render_def Let_def split: option.splits prod.splits)

lemma struct_collapse: "struct (collapse n) = collapse (struct n)"
  by (induction n rule: collapse.induct) (auto split: option.splits)

lemma struct_expand: "struct (expand n) = expand (struct n)"
  by (induction n rule: expand.induct) (auto split: option.splits)

lemma struct_toggle: "struct (toggle_children n) = toggle_children (struct n)"
  by (cases n) (auto split: option.splits)

lemma wf_struct: "wf_node (struct n) = wf_node n"
  by (induction n rule: wf_node.induct) (auto simp: comp_def split: option.splits)


lemma data_struct: "struct r' = struct r \<Longrightarrow> data (attrs r') = data (attrs r)"
proof -
  assume "struct r' = struct r"
  then have "data (attrs (struct r')) = data (attrs (struct r))" by simp
  then show ?thesis by simp
qed

lemma hierarchy_at_data [simp]: "data (attrs (hierarchy_at k d)) = d"
  by (cases d) simp

lemma wf_hierarchy_at: "wf_node (hierarchy_at k d)"
  by (induction k d rule: hierarchy_at.induct) (auto simp: comp_def map_idI)

lemma collapse_data [simp]: "data (attrs (collapse n)) = data (attrs n)"
  by (cases n) (simp split: option.splits)

lemma expand_data [simp]: "data (attrs (expand n)) = data (attrs n)"
  by (cases n) (simp split: option.splits)

lemma toggle_data [simp]: "data (attrs (toggle_children n)) = data (attrs n)"
  by (cases n) (simp split: option.splits)

lemma wf_collapse: "wf_node n \<Longrightarrow> wf_node (collapse n)"
  by (induction n rule: collapse.induct) (auto simp: comp_def split: option.splits)

lemma wf_expand: "wf_node n \<Longrightarrow> wf_node (expand n)"
  by (induction n rule: expand.induct) (auto simp: comp_def split: option.splits)

lemma wf_toggle: "wf_node n \<Longrightarrow> wf_node (toggle_children n)"
  by (cases n) (auto split: option.splits)

lemma update_at_data:
  "(\<And>m. data (attrs (f m)) = data (attrs m)) \<Longrightarrow> data (attrs (update_at p f n)) = data (attrs n)"
  by (cases p; cases n) (auto split: option.splits)

lemma wf_update_at:
  assumes "\<And>m. wf_node m \<Longrightarrow> wf_node (f m)" and "\<And>m. data (attrs (f m)) = data (attrs m)"
  shows "wf_node n \<Longrightarrow> wf_node (update_at p f n)"
proof (induction p arbitrary: n)
  case Nil
  then show ?case by (simp add: assms)
next
  case (Cons i p)
  have upd: "\<And>cs. i < length cs \<Longrightarrow>
      map (\<lambda>n. data (attrs n)) (cs[i := update_at p f (cs ! i)]) = map (\<lambda>n. data (attrs n)) cs"
    by (rule map_update_same) (simp_all add: update_at_data assms(2))
  have mem: "\<And>cs m. i < length cs \<Longrightarrow> \<forall>n\<in>set cs. wf_node n \<Longrightarrow>
      m \<in> set (cs[i := update_at p f (cs ! i)]) \<Longrightarrow> wf_node m"
  proof -
    fix cs m assume i: "i < length cs" and all: "\<forall>n\<in>set cs. wf_node n"
      and m: "m \<in> set (cs[i := update_at p f (cs ! i)])"
    from m have "m = update_at p f (cs ! i) \<or> m \<in> set cs"
      using set_update_subset_insert [of cs i "update_at p f (cs ! i)"] by auto
    then show "wf_node m" using i all Cons.IH [of "cs ! i"] by auto
  qed
  show ?case
    using Cons.prems by (cases n) (auto simp: upd dest: mem split: option.splits)
qed

lemma wf_set_attrs: "(\<And>a. data (g a) = data a) \<Longrightarrow> wf_node n \<Longrightarrow> wf_node (set_attrs g n)"
  by (cases n) (auto simp: set_attrs_def split: option.splits)

lemma wf_collapse_children: "wf_node r \<Longrightarrow> wf_node (collapse_children r)"
  by (cases r)
    (auto simp: collapse_children_def comp_def wf_collapse if_distrib [of attrs] if_distrib [of data]
      split: option.splits cong: if_cong)

lemma collapse_children_data [simp]: "data (attrs (collapse_children r)) = data (attrs r)"
  by (cases r) (simp add: collapse_children_def split: option.splits)

lemma tree_ok_render: "tree_ok s \<Longrightarrow> tree_ok (render T s)"
proof (cases "root s")
  case None
  then show "tree_ok s \<Longrightarrow> tree_ok (render T s)" by (simp add: render_None)
next
  case (Some r)
  obtain r' where r': "root (render T s) = Some r'" "struct r' = struct r"
    using render_root [OF Some] by blast
  assume "tree_ok s"
  then have "wf_node r" "truthy (name (data (attrs r)))" using Some by (simp_all add: tree_ok_def)
  moreover have "wf_node r' = wf_node r" using r'(2) wf_struct by metis
  moreover have "data (attrs r') = data (attrs r)" using r'(2) by (rule data_struct)
  ultimately show "tree_ok (render T s)" using r'(1) by (simp add: tree_ok_def)
qed

lemma tree_ok_root_update:
  "tree_ok s \<Longrightarrow> (\<And>r. root s = Some r \<Longrightarrow> wf_node r \<Longrightarrow> wf_node (f r) \<and> data (attrs (f r)) = data (attrs r))
   \<Longrightarrow> tree_ok (s\<lparr>root := map_option f (root s)\<rparr>)"
  by (cases "root s") (auto simp: tree_ok_def)

lemma tree_ok_clearTree: "tree_ok (clearTree s)"
  by (simp add: tree_ok_def clearTree_def)

lemma tree_ok_updateTree: "updateTree T treeData s = Inr s' \<Longrightarrow> tree_ok s'"
proof (cases treeData)
  case (PObject d)
  assume u: "updateTree T treeData s = Inr s'"
  show "tree_ok s'"
  proof (cases "truthy (name d)")
    case False
    then show ?thesis using u PObject by (auto simp: updateTree_def no_data_def tree_ok_clearTree)
  next
    case True
    let ?r = "collapse_children (set_attrs (\<lambda>a. a\<lparr>px0 := Some (height (hideEmptyState s) / 2), py0 := Some 0\<rparr>) (hierarchy d))"
    have "wf_node ?r"
      by (intro wf_collapse_children wf_set_attrs) (simp_all add: hierarchy_def wf_hierarchy_at)
    moreover have "data (attrs ?r) = d" by (simp add: set_attrs_def hierarchy_def)
    ultimately have "tree_ok ((hideEmptyState s)\<lparr>root := Some ?r\<rparr>)" using True by (simp add: tree_ok_def)
    then have "tree_ok (render T ((hideEmptyState s)\<lparr>root := Some ?r\<rparr>))" by (rule tree_ok_render)
    then show ?thesis using u PObject True by (simp add: updateTree_def no_data_def Let_def)
  qed
qed (auto simp: updateTree_def no_data_def tree_ok_clearTree)

lemma tree_ok_exec: "tree_ok s \<Longrightarrow> tree_ok (exec T o' s)"
proof (cases o')
  case (UpdateTree x)
  then show "tree_ok s \<Longrightarrow> tree_ok (exec T o' s)"
    by (auto simp: tree_ok_updateTree split: sum.splits)
next
  case (ToggleNode p)
  assume "tree_ok s"
  then have "tree_ok (s\<lparr>root := map_option (update_at p toggle_children) (root s)\<rparr>)"
    by (rule tree_ok_root_update) (simp add: wf_update_at wf_toggle update_at_data)
  then show "tree_ok (exec T o' s)" using ToggleNode by (simp add: toggleNode_def tree_ok_render)
next
  case (Collapse p)
  assume "tree_ok s"
  then have "tree_ok (s\<lparr>root := map_option (update_at p collapse) (root s)\<rparr>)"
    by (rule tree_ok_root_update) (simp add: wf_update_at wf_collapse update_at_data)
  then show "tree_ok (exec T o' s)" using Collapse by simp
next
  case ExpandAll
  assume ok: "tree_ok s"
  show "tree_ok (exec T o' s)"
  proof (cases "root s")
    case None
    then show ?thesis using ok ExpandAll by (simp add: expandAll_def)
  next
    case (Some r)
    have "tree_ok (s\<lparr>root := Some (expand r)\<rparr>)" using ok Some by (simp add: tree_ok_def wf_expand)
    then show ?thesis using ExpandAll Some by (simp add: expandAll_def tree_ok_render)
  qed
next
  case CollapseAll
  assume ok: "tree_ok s"
  show "tree_ok (exec T o' s)"
  proof (cases "root s")
    case None
    then show ?thesis using ok CollapseAll by (simp add: collapseAll_def)
  next
    case (Some r)
    let ?r = "case children r of None \<Rightarrow> r | Some cs \<Rightarrow> Node (attrs r) (Some (map collapse cs)) (uchildren r)"
    have "wf_node ?r \<and> data (attrs ?r) = data (attrs r)"
      using ok Some by (cases r) (auto simp: tree_ok_def comp_def wf_collapse split: option.splits)
    then have "tree_ok (s\<lparr>root := Some ?r\<rparr>)" using ok Some by (simp add: tree_ok_def)
    then show ?thesis using CollapseAll Some by (simp add: collapseAll_def tree_ok_render)
  qed
next
  case ClearTree
  then show "tree_ok (exec T o' s)" by (simp add: tree_ok_clearTree)
next
  case (Resize w h)
  assume "tree_ok s"
  then have "tree_ok (updateDimensions w h s)" by (simp add: tree_ok_def updateDimensions_def)
  then show "tree_ok (exec T o' s)" using Resize by (simp add: resize_def tree_ok_render)
qed

lemma tree_ok_run: "tree_ok s \<Longrightarrow> tree_ok (run T ops s)"
  unfolding run_def by (induction ops arbitrary: s) (simp_all add: tree_ok_exec)

lemma tree_ok_init: "tree_ok (init w h es)"
  by (simp add: tree_ok_def init_def updateDimensions_def)

lemmas eval_defs =
  updateTree_def no_data_def init_def updateDimensions_def hideEmptyState_def hierarchy_def
  collapse_children_def set_attrs_def render_def joined_def descendants_def enqueue_def vis_def
  forEach_def data_join_def key_fn_def id_falsy_def visible_nodes_def List.map_filter_def kids_def
  Let_def run_def toggleNode_def expandAll_def collapseAll_def clearTree_def showEmptyState_def
  resize_def nodeEnter_def scenario_def unnamed_root_def mid_layout_def page_def

lemma updateTree_total: "\<exists>s'. updateTree T treeData s = Inr s'"
  by (cases treeData) (simp_all add: updateTree_def no_data_def Let_def split: bool.splits)

lemma wf_all_nodes: "wf_node r \<Longrightarrow> n \<in> set (all_nodes r) \<Longrightarrow> wf_node n"
  by (induction r rule: all_nodes.induct) (auto split: option.splits)

lemma wf_slots:
  assumes "wf_node n"
  shows "(td_children (data (attrs n)) \<noteq> [] \<longrightarrow> nonempty (children n) \<noteq> nonempty (uchildren n))
       \<and> ((\<not> nonempty (children n) \<and> \<not> nonempty (uchildren n)) = (td_children (data (attrs n)) = []))
       \<and> (td_children (data (attrs n)) = [] \<longrightarrow> children n = None \<and> uchildren n = None)
       \<and> map (\<lambda>m. data (attrs m)) (kids n) = td_children (data (attrs n))"
  using assms by (cases n) (auto simp: nonempty_def kids_def split: option.splits list.splits)

subsection \<open>Paths and structure\<close>

lemma kids_struct: "kids (struct n) = map struct (kids n)"
  by (cases n) (simp add: kids_def split: option.splits)

lemma vis_struct: "vis (struct n) = map struct (vis n)"
  by (cases n) (simp add: vis_def split: option.splits)

lemma node_at_struct: "node_at p (struct r) = map_option struct (node_at p r)"
  by (induction p arbitrary: r) (simp_all add: kids_struct)

lemma enqueue_struct: "enqueue p (struct n) = map (apsnd struct) (enqueue p n)"
  by (simp add: enqueue_def vis_struct)

lemma bfs_struct: "bfs (map (apsnd struct) q) = bfs q"
  by (induction q rule: bfs.induct) (simp_all add: enqueue_struct)

lemma descendants_struct: "descendants (struct r) = descendants r"
  using bfs_struct [of "[([], r)]"] by (simp add: descendants_def)

lemma descendants_cong: "struct r' = struct r \<Longrightarrow> descendants r' = descendants r"
  by (metis descendants_struct)

lemma map_filter_map_option:
  "List.map_filter (\<lambda>p. map_option f (g p)) ps = map f (List.map_filter g ps)"
  by (induction ps) (auto simp: List.map_filter_def)

lemma visible_nodes_struct: "visible_nodes (struct r) = map struct (visible_nodes r)"
  by (simp add: visible_nodes_def descendants_struct node_at_struct map_filter_map_option)

lemma visible_data_cong:
  assumes "struct r' = struct r"
  shows "map (\<lambda>n. data (attrs n)) (visible_nodes r') = map (\<lambda>n. data (attrs n)) (visible_nodes r)"
proof -
  have "\<And>x. map (\<lambda>n. data (attrs n)) (visible_nodes x)
            = map (\<lambda>n. data (attrs n)) (visible_nodes (struct x))"
    by (simp add: visible_nodes_struct comp_def)
  then show ?thesis using assms by metis
qed

lemma all_nodes_struct: "all_nodes (struct r) = map struct (all_nodes r)"
  by (induction r rule: all_nodes.induct)
    (auto simp: map_concat comp_def split: option.splits cong: map_cong)

lemma fully_collapsed_struct: "fully_collapsed (struct n) = fully_collapsed n"
  by (induction n rule: fully_collapsed.induct) (auto split: option.splits)

lemma vis_tree_struct: "vis_tree (struct n) = vis_tree n"
  by (induction n rule: vis_tree.induct) (auto split: option.splits)

subsection \<open>The visible nodes of a tree of two levels\<close>

lemma bfs_leaves: "\<forall>x\<in>set q. vis (snd x) = [] \<Longrightarrow> bfs q = map fst q"
  by (induction q rule: bfs.induct) (simp_all add: enqueue_def)

lemma descendants_two_levels:
  assumes "\<forall>c\<in>set (vis r). vis c = []"
  shows "descendants r = [] # map (\<lambda>i. [i]) [0..<length (vis r)]"
proof -
  have "bfs (enqueue [] r) = map fst (enqueue [] r)"
    by (rule bfs_leaves) (use assms in \<open>auto simp: enqueue_def\<close>)
  then show ?thesis by (simp add: descendants_def enqueue_def comp_def)
qed

lemma visible_nodes_two_levels:
  assumes "\<forall>c\<in>set (vis r). vis c = []" and "kids r = vis r"
  shows "visible_nodes r = r # vis r"
proof -
  have "List.map_filter (\<lambda>p. node_at p r) (map (\<lambda>i. [i]) [0..<length (vis r)])
        = map (\<lambda>i. vis r ! i) [0..<length (vis r)]"
    using assms(2) by (auto simp: List.map_filter_def comp_def)
  then show ?thesis
    using descendants_two_levels [OF assms(1)]
    by (simp add: visible_nodes_def List.map_filter_def map_nth)
qed

subsection \<open>Collapsing a fresh hierarchy\<close>

lemma fully_collapsed_collapse_hierarchy: "fully_collapsed (collapse (hierarchy_at k d))"
  by (induction k d rule: hierarchy_at.induct) auto

lemma fully_collapsed_leaf: "children (hierarchy_at k d) = None \<Longrightarrow> fully_collapsed (hierarchy_at k d)"
  by (cases d) (simp split: if_splits)

lemma fully_collapsed_vis: "fully_collapsed c \<Longrightarrow> vis c = []"
  by (cases c) (simp add: vis_def)

lemma collapse_children_hierarchy:
  fixes g :: "attrs \<Rightarrow> attrs" and d :: tree_data
  assumes "\<And>a. data (g a) = data a"
  defines "r0 \<equiv> collapse_children (set_attrs g (hierarchy d))"
  shows "uchildren r0 = None" and "kids r0 = vis r0" and "\<forall>c\<in>set (kids r0). fully_collapsed c"
    and "map (\<lambda>n. data (attrs n)) (kids r0) = td_children d" and "data (attrs r0) = d"
proof -
  obtain nm ty cs where d: "d = TreeData nm ty cs" by (cases d)
  show "uchildren r0 = None"
    by (simp add: r0_def d collapse_children_def set_attrs_def hierarchy_def)
  show "kids r0 = vis r0"
    by (simp add: r0_def d collapse_children_def set_attrs_def hierarchy_def kids_def vis_def)
  show "\<forall>c\<in>set (kids r0). fully_collapsed c"
    by (auto simp: r0_def d collapse_children_def set_attrs_def hierarchy_def kids_def
        fully_collapsed_collapse_hierarchy fully_collapsed_leaf
        simp del: fully_collapsed.simps collapse.simps)
  show "map (\<lambda>n. data (attrs n)) (kids r0) = td_children d"
    by (simp add: r0_def d collapse_children_def set_attrs_def hierarchy_def kids_def comp_def
        if_distrib [of attrs] if_distrib [of data] map_idI cong: if_cong)
  show "data (attrs r0) = d"
    by (simp add: r0_def set_attrs_def hierarchy_def assms(1))
qed

subsection \<open>Expanding\<close>

lemma vis_tree_expand: "wf_node n \<Longrightarrow> vis_tree (expand n) = data (attrs n)"
proof (induction n rule: expand.induct)
  case (1 a c h)
  obtain nm ty cs where d: "data a = TreeData nm ty cs" by (cases "data a")
  show ?case
  proof (cases h)
    case (Some hs)
    have wf: "c = None" "\<forall>x\<in>set hs. wf_node x" "map (\<lambda>n. data (attrs n)) hs = td_children (data a)"
      using 1(3) Some by (auto split: option.splits)
    have "map (\<lambda>x. vis_tree (expand x)) hs = map (\<lambda>n. data (attrs n)) hs"
      using 1(2) [OF Some] wf(2) by (intro map_cong [OF refl]) auto
    then show ?thesis using Some wf d by (simp add: comp_def)
  next
    case None
    show ?thesis
    proof (cases c)
      case (Some cs')
      have wf: "\<forall>x\<in>set cs'. wf_node x" "map (\<lambda>n. data (attrs n)) cs' = td_children (data a)"
        using 1(3) Some None by auto
      have "map (\<lambda>x. vis_tree (expand x)) cs' = map (\<lambda>n. data (attrs n)) cs'"
        using 1(1) [OF None Some] wf(1) by (intro map_cong [OF refl]) auto
      then show ?thesis using Some None wf d by (simp add: comp_def)
    next
      case c: None
      then show ?thesis using None 1(3) d by simp
    qed
  qed
qed

lemma expand_no_uchildren: "n \<in> set (all_nodes (expand r)) \<Longrightarrow> uchildren n = None"
  by (induction r arbitrary: n rule: expand.induct) (auto split: option.splits)

lemma no_uchildren_cong:
  assumes "struct r' = struct r" and "\<forall>n\<in>set (all_nodes r). uchildren n = None"
  shows "\<forall>n\<in>set (all_nodes r'). uchildren n = None"
proof
  fix n assume "n \<in> set (all_nodes r')"
  then have "struct n \<in> set (all_nodes (struct r'))" by (simp add: all_nodes_struct)
  then have "struct n \<in> struct ` set (all_nodes r)" using assms(1) by (simp add: all_nodes_struct)
  then obtain m where "m \<in> set (all_nodes r)" "struct n = struct m" by auto
  then have "uchildren (struct n) = None" using assms(2) by simp
  then show "uchildren n = None" by simp
qed

subsection \<open>Toggling\<close>

lemma kids_update_at:
  "kids (update_at (i # p) f n) = (kids n)[i := update_at p f (kids n ! i)]"
  by (cases n) (auto simp: kids_def list_update_beyond not_less split: option.splits)

lemma node_at_update_at_same: "node_at p (update_at p f r) = map_option f (node_at p r)"
  by (induction p arbitrary: r) (simp_all add: kids_update_at)

lemma update_at_twice: "update_at p f (update_at p g n) = update_at p (\<lambda>m. f (g m)) n"
  by (induction p arbitrary: n; case_tac n) (auto split: option.splits)

lemma update_at_fix:
  "(case node_at p r of None \<Rightarrow> True | Some n \<Rightarrow> f n = n) \<Longrightarrow> update_at p f r = r"
  by (induction p arbitrary: r; case_tac r) (auto simp: kids_def list_update_same_conv split: option.splits if_splits)

lemma wf_kids: "wf_node r \<Longrightarrow> i < length (kids r) \<Longrightarrow> wf_node (kids r ! i)"
  by (cases r) (auto simp: kids_def split: option.splits)

lemma wf_node_at: "wf_node r \<Longrightarrow> node_at p r = Some n \<Longrightarrow> wf_node n"
proof (induction p arbitrary: r)
  case Nil
  then show ?case by simp
next
  case (Cons i p)
  from Cons.prems(2) have i: "i < length (kids r)" and at: "node_at p (kids r ! i) = Some n"
    by (auto split: if_splits)
  from Cons.prems(1) i have "wf_node (kids r ! i)" by (rule wf_kids)
  then show ?case using at by (rule Cons.IH)
qed

lemma toggle_toggle: "wf_node n \<Longrightarrow> toggle_children (toggle_children n) = n"
  by (cases n) (auto split: option.splits)

lemma kids_toggle: "kids (toggle_children n) = kids n"
  by (cases n) (auto simp: kids_def split: option.splits)

lemma toggle_leaf: "wf_node n \<Longrightarrow> kids n = [] \<Longrightarrow> toggle_children n = n"
  by (cases n) (auto simp: kids_def split: option.splits)

lemma toggle_twice_at:
  assumes "wf_node r"
  shows "update_at p toggle_children (update_at p toggle_children r) = r"
proof -
  have "(case node_at p r of None \<Rightarrow> True
         | Some n \<Rightarrow> toggle_children (toggle_children n) = n)"
    using wf_node_at [OF assms] toggle_toggle by (auto split: option.splits)
  then show ?thesis by (simp add: update_at_twice update_at_fix)
qed

subsection \<open>Reading the fields along a path\<close>

lemma attrs_at_Nil [simp]: "attrs_at [] r = Some (attrs r)"
  by (simp add: attrs_at_def)

lemma attrs_at_Cons:
  "attrs_at (i # p) r = (if i < length (kids r) then attrs_at p (kids r ! i) else None)"
  by (simp add: attrs_at_def)

lemma kids_set_attrs [simp]: "kids (set_attrs g n) = kids n"
  by (simp add: kids_def set_attrs_def split: option.splits)

lemma attrs_update_at_Cons [simp]: "attrs (update_at (i # p) f n) = attrs n"
  by (cases n) (simp split: option.splits)

lemma attrs_at_update_attrs:
  "attrs_at q (update_at p (set_attrs g) r)
     = (if q = p then map_option g (attrs_at q r) else attrs_at q r)"
proof (induction p arbitrary: q r)
  case Nil
  show ?case by (cases q) (simp_all add: attrs_at_Cons, simp add: set_attrs_def)
next
  case (Cons i p)
  show ?case
  proof (cases q)
    case Nil
    then show ?thesis by simp
  next
    case (Cons j q')
    show ?thesis
      unfolding Cons
      by (cases "j = i")
        (simp_all add: attrs_at_Cons kids_update_at Cons.IH nth_list_update)
  qed
qed

lemma attrs_at_update_at:
  assumes "\<And>m q. attrs_at q (f m) = attrs_at q m"
  shows "attrs_at q (update_at p f r) = attrs_at q r"
proof (induction p arbitrary: q r)
  case Nil
  show ?case by (simp add: assms)
next
  case (Cons i p)
  show ?case
  proof (cases q)
    case Nil
    then show ?thesis by simp
  next
    case (Cons j q')
    show ?thesis
      unfolding Cons
      by (cases "j = i")
        (simp_all add: attrs_at_Cons kids_update_at Cons.IH nth_list_update)
  qed
qed

lemma attrs_at_toggle: "attrs_at q (toggle_children n) = attrs_at q n"
proof (cases q)
  case Nil
  then show ?thesis by (cases n) (simp split: option.splits)
next
  case (Cons j q')
  then show ?thesis by (simp add: attrs_at_Cons kids_toggle)
qed

lemma kids_collapse:
  "kids (collapse n) = (case children n of Some cs \<Rightarrow> map collapse cs | None \<Rightarrow> kids n)"
  by (cases n) (simp add: kids_def split: option.splits)

lemma attrs_collapse [simp]: "attrs (collapse n) = attrs n"
  by (cases n) (simp split: option.splits)

lemma attrs_at_collapse: "attrs_at q (collapse n) = attrs_at q n"
proof (induction q arbitrary: n)
  case Nil
  show ?case by simp
next
  case (Cons j q)
  show ?case
  proof (cases "children n")
    case None
    then show ?thesis by (simp add: attrs_at_Cons kids_collapse)
  next
    case (Some cs)
    then have "kids n = cs" by (simp add: kids_def)
    then show ?thesis using Some by (simp add: attrs_at_Cons kids_collapse Cons.IH)
  qed
qed

lemma kids_expand: "wf_node n \<Longrightarrow> kids (expand n) = map expand (kids n)"
  by (cases n) (auto simp: kids_def split: option.splits)

lemma attrs_expand [simp]: "attrs (expand n) = attrs n"
  by (cases n) (simp split: option.splits)

lemma attrs_at_expand: "wf_node n \<Longrightarrow> attrs_at q (expand n) = attrs_at q n"
proof (induction q arbitrary: n)
  case Nil
  show ?case by simp
next
  case (Cons j q)
  then show ?case by (simp add: attrs_at_Cons kids_expand wf_kids)
qed

lemma attrs_at_forEach:
  "attrs_at q (forEach ps g r) = map_option ((g q) ^^ count_list ps q) (attrs_at q r)"
  unfolding forEach_def
proof (induction ps arbitrary: r)
  case Nil
  show ?case by (simp add: option.map_ident)
next
  case (Cons p ps)
  show ?case
    by (simp add: Cons.IH attrs_at_update_attrs option.map_comp comp_def funpow_swap1)
qed

subsection \<open>The key function and the joins\<close>

lemma key_fn_fst:
  "fst (key_fn p (r, k))
     = (if fires p r then update_at p (set_attrs (\<lambda>a. a\<lparr>nid := Some (Suc k)\<rparr>)) r else r)"
  by (auto simp: key_fn_def fires_def attrs_at_def split: option.splits)

lemma key_fn_snd: "snd (key_fn p (r, k)) = (if fires p r then Suc k else k)"
  by (auto simp: key_fn_def fires_def attrs_at_def split: option.splits)

lemma attrs_at_key_fn:
  "attrs_at q (fst (key_fn p (r, k)))
     = (if q = p \<and> fires p r then map_option (\<lambda>a. a\<lparr>nid := Some (Suc k)\<rparr>) (attrs_at q r)
        else attrs_at q r)"
  by (simp add: key_fn_fst attrs_at_update_attrs)

lemma key_fn_ids_ok:
  assumes "ids_ok r k"
  shows "ids_ok (fst (key_fn p (r, k))) (snd (key_fn p (r, k)))"
proof (cases "fires p r")
  case False
  then show ?thesis using assms by (simp add: key_fn_fst key_fn_snd)
next
  case True
  let ?r = "fst (key_fn p (r, k))"
  have at: "\<And>q. attrs_at q ?r = (if q = p then map_option (\<lambda>a. a\<lparr>nid := Some (Suc k)\<rparr>) (attrs_at q r)
                                  else attrs_at q r)"
    using True by (simp add: attrs_at_key_fn)
  have old: "\<And>q a i. attrs_at q r = Some a \<Longrightarrow> nid a = Some i \<Longrightarrow> 0 < i \<and> i \<le> k"
    using assms unfolding ids_ok_def by blast
  have inj: "\<And>q q' a b i. attrs_at q r = Some a \<Longrightarrow> attrs_at q' r = Some b \<Longrightarrow> nid a = Some i
              \<Longrightarrow> nid b = Some i \<Longrightarrow> q = q'"
    using assms unfolding ids_ok_def by blast
  have new: "\<And>q a i. attrs_at q ?r = Some a \<Longrightarrow> nid a = Some i
              \<Longrightarrow> (q = p \<and> i = Suc k) \<or> (q \<noteq> p \<and> attrs_at q r = Some a \<and> 0 < i \<and> i \<le> k)"
    using old by (auto simp: at split: if_splits)
  have b: "\<forall>q a i. attrs_at q ?r = Some a \<and> nid a = Some i \<longrightarrow> 0 < i \<and> i \<le> Suc k"
    using new by fastforce
  have i: "\<forall>q q' a b i. attrs_at q ?r = Some a \<and> attrs_at q' ?r = Some b
             \<and> nid a = Some i \<and> nid b = Some i \<longrightarrow> q = q'"
  proof (intro allI impI)
    fix q q' a b i
    assume h: "attrs_at q ?r = Some a \<and> attrs_at q' ?r = Some b \<and> nid a = Some i \<and> nid b = Some i"
    from h new [of q a i] new [of q' b i] inj [of q a q' b i] show "q = q'" by auto
  qed
  show ?thesis using b i True by (simp add: ids_ok_def key_fn_snd)
qed

lemma data_join_Cons: "data_join (p # ps) st = data_join ps (key_fn p st)"
  by (simp add: data_join_def)

lemma data_join_Nil [simp]: "data_join [] st = st"
  by (simp add: data_join_def)

lemma data_join_mono: "snd st \<le> snd (data_join ps st)"
proof (induction ps arbitrary: st)
  case Nil
  show ?case by simp
next
  case (Cons p ps)
  have "snd st \<le> snd (key_fn p st)" by (cases st) (simp add: key_fn_snd)
  then show ?case using Cons.IH [of "key_fn p st"] by (simp add: data_join_Cons)
qed

lemma data_join_ids_ok:
  "ids_ok (fst st) (snd st) \<Longrightarrow> ids_ok (fst (data_join ps st)) (snd (data_join ps st))"
proof (induction ps arbitrary: st)
  case Nil
  then show ?case by simp
next
  case (Cons p ps)
  have "ids_ok (fst (key_fn p st)) (snd (key_fn p st))"
    using Cons.prems key_fn_ids_ok [of "fst st" "snd st" p] by simp
  then show ?case using Cons.IH by (simp add: data_join_Cons)
qed

lemma key_fn_keep:
  "attrs_at q (fst st) = Some a \<Longrightarrow> \<not> id_falsy (nid a) \<Longrightarrow> attrs_at q (fst (key_fn p st)) = Some a"
  by (cases st) (auto simp: attrs_at_key_fn fires_def)

lemma data_join_keep:
  "attrs_at q (fst st) = Some a \<Longrightarrow> \<not> id_falsy (nid a)
   \<Longrightarrow> attrs_at q (fst (data_join ps st)) = Some a"
  by (induction ps arbitrary: st) (simp_all add: data_join_Cons key_fn_keep)

lemma key_fn_others:
  "map_option (\<lambda>a. a\<lparr>nid := None\<rparr>) (attrs_at q (fst (key_fn p st)))
     = map_option (\<lambda>a. a\<lparr>nid := None\<rparr>) (attrs_at q (fst st))"
  by (cases st) (simp add: attrs_at_key_fn option.map_comp comp_def)

lemma data_join_others:
  "map_option (\<lambda>a. a\<lparr>nid := None\<rparr>) (attrs_at q (fst (data_join ps st)))
     = map_option (\<lambda>a. a\<lparr>nid := None\<rparr>) (attrs_at q (fst st))"
  by (induction ps arbitrary: st) (simp_all add: data_join_Cons key_fn_others)

lemma key_fn_assigns:
  "attrs_at p (fst st) \<noteq> None \<Longrightarrow> \<exists>a. attrs_at p (fst (key_fn p st)) = Some a \<and> \<not> id_falsy (nid a)"
  by (cases st) (auto simp: attrs_at_key_fn fires_def id_falsy_def)

lemma data_join_assigns:
  "q \<in> set ps \<Longrightarrow> attrs_at q (fst st) \<noteq> None
   \<Longrightarrow> \<exists>a. attrs_at q (fst (data_join ps st)) = Some a \<and> \<not> id_falsy (nid a)"
proof (induction ps arbitrary: st)
  case Nil
  then show ?case by simp
next
  case (Cons p ps)
  show ?case
  proof (cases "q = p")
    case True
    then obtain a where "attrs_at q (fst (key_fn p st)) = Some a" "\<not> id_falsy (nid a)"
      using key_fn_assigns [of p st] Cons.prems(2) by auto
    then show ?thesis by (simp add: data_join_Cons data_join_keep)
  next
    case False
    then have "q \<in> set ps" using Cons.prems(1) by simp
    moreover have "attrs_at q (fst (key_fn p st)) \<noteq> None"
      using key_fn_others [of q p st] Cons.prems(2)
      by (cases "attrs_at q (fst (key_fn p st))") simp_all
    ultimately show ?thesis using Cons.IH by (simp add: data_join_Cons)
  qed
qed

lemma data_join_noop: "\<forall>q\<in>set ps. keyed q (fst st) \<Longrightarrow> data_join ps st = st"
proof (induction ps arbitrary: st)
  case Nil
  show ?case by simp
next
  case (Cons p ps)
  have "keyed p (fst st)" using Cons.prems by simp
  then have "key_fn p st = st"
    by (cases st) (auto simp: key_fn_def keyed_def attrs_at_def split: option.splits)
  then show ?case using Cons by (simp add: data_join_Cons)
qed

lemma keyed_cong:
  "map_option nid (attrs_at q r') = map_option nid (attrs_at q r) \<Longrightarrow> keyed q r' = keyed q r"
  by (cases "attrs_at q r'"; cases "attrs_at q r") (simp_all add: keyed_def)

lemma funpow_keeps: "(\<And>a. P (f a) = P a) \<Longrightarrow> P ((f ^^ n) a) = P a"
  by (induction n) simp_all

lemma forEach_nid:
  assumes "\<And>p a. nid (g p a) = nid a"
  shows "map_option nid (attrs_at q (forEach ps g r)) = map_option nid (attrs_at q r)"
proof -
  have "\<And>a. nid ((g q ^^ count_list ps q) a) = nid a"
    by (rule funpow_keeps) (rule assms)
  then show ?thesis by (simp add: attrs_at_forEach option.map_comp comp_def)
qed

subsection \<open>What a render does to the fields\<close>

lemma ids_ok_cong:
  assumes "\<And>q. map_option nid (attrs_at q r') = map_option nid (attrs_at q r)"
  shows "ids_ok r' k = ids_ok r k"
proof -
  have eq: "\<And>q i. (\<exists>a. attrs_at q r' = Some a \<and> nid a = Some i)
                  = (\<exists>a. attrs_at q r = Some a \<and> nid a = Some i)"
  proof -
    fix q i
    show "(\<exists>a. attrs_at q r' = Some a \<and> nid a = Some i)
           = (\<exists>a. attrs_at q r = Some a \<and> nid a = Some i)"
      using assms [of q] by (cases "attrs_at q r'"; cases "attrs_at q r") auto
  qed
  have "ids_ok x k = ((\<forall>p i. (\<exists>a. attrs_at p x = Some a \<and> nid a = Some i) \<longrightarrow> 0 < i \<and> i \<le> k)
      \<and> (\<forall>p q i. (\<exists>a. attrs_at p x = Some a \<and> nid a = Some i)
             \<and> (\<exists>b. attrs_at q x = Some b \<and> nid b = Some i) \<longrightarrow> p = q))" for x
    unfolding ids_ok_def by blast
  then show ?thesis by (simp add: eq)
qed

lemma joined_laid:
  "joined T s r = data_join (descendants r) (data_join (tl (descendants r)) (laid T s r, nodeId s))"
  by (simp add: joined_def laid_def Let_def)

lemma laid_nid: "map_option nid (attrs_at q (laid T s r)) = map_option nid (attrs_at q r)"
  by (simp add: laid_def forEach_nid)

lemma descendants_joined: "descendants (fst (joined T s r)) = descendants r"
  by (rule descendants_cong) (rule struct_joined)

lemma render_Some:
  assumes "root s = Some r"
  shows "root (render T s)
           = Some (forEach (descendants r) (\<lambda>p a. a\<lparr>px0 := px a, py0 := py a\<rparr>) (fst (joined T s r)))"
    and "nodeId (render T s) = snd (joined T s r)"
  using assms descendants_joined [of T s r]
  by (auto simp: render_def Let_def split: prod.splits)

lemma render_nid:
  assumes "root s = Some r" and "root (render T s) = Some r'"
  shows "map_option nid (attrs_at q r') = map_option nid (attrs_at q (fst (joined T s r)))"
proof -
  have "r' = forEach (descendants r) (\<lambda>p a. a\<lparr>px0 := px a, py0 := py a\<rparr>) (fst (joined T s r))"
    using assms render_Some(1) [OF assms(1), of T] by simp
  then show ?thesis by (simp add: forEach_nid)
qed

lemma joined_keep:
  assumes "attrs_at q r = Some a" and "\<not> id_falsy (nid a)"
  shows "\<exists>a'. attrs_at q (fst (joined T s r)) = Some a' \<and> nid a' = nid a"
proof -
  obtain a2 where a2: "attrs_at q (laid T s r) = Some a2" "nid a2 = nid a"
    using laid_nid [of q T s r] assms(1) by (cases "attrs_at q (laid T s r)") auto
  have f: "\<not> id_falsy (nid a2)" using a2(2) assms(2) by simp
  have "attrs_at q (fst (data_join (tl (descendants r)) (laid T s r, nodeId s))) = Some a2"
    using data_join_keep [of q "(laid T s r, nodeId s)" a2 "tl (descendants r)"] a2(1) f by simp
  then have "attrs_at q (fst (joined T s r)) = Some a2"
    unfolding joined_laid using f by (rule data_join_keep)
  then show ?thesis using a2(2) by simp
qed

lemma render_keep:
  assumes "root s = Some r" and "attrs_at q r = Some a" and "nid a = Some i" and "0 < i"
  shows "\<exists>r' a'. root (render T s) = Some r' \<and> attrs_at q r' = Some a' \<and> nid a' = Some i"
proof -
  have "\<not> id_falsy (nid a)" using assms(3,4) by (simp add: id_falsy_def)
  then obtain a4 where a4: "attrs_at q (fst (joined T s r)) = Some a4" "nid a4 = Some i"
    using joined_keep [OF assms(2), of T s] assms(3) by auto
  obtain r' where r': "root (render T s) = Some r'"
    using render_Some(1) [OF assms(1)] by simp
  have "map_option nid (attrs_at q r') = Some (Some i)"
    using render_nid [OF assms(1) r', of q] a4 by simp
  then show ?thesis using r' by (cases "attrs_at q r'") auto
qed

lemma joined_ids_ok:
  assumes "ids_ok r (nodeId s)"
  shows "ids_ok (fst (joined T s r)) (snd (joined T s r))"
proof -
  have "ids_ok (laid T s r) (nodeId s)"
    using assms ids_ok_cong [of "laid T s r" r] by (simp add: laid_nid)
  then have "ids_ok (fst (data_join (tl (descendants r)) (laid T s r, nodeId s)))
                    (snd (data_join (tl (descendants r)) (laid T s r, nodeId s)))"
    by (intro data_join_ids_ok) simp
  then show ?thesis unfolding joined_laid by (rule data_join_ids_ok)
qed

lemma render_ids_ok:
  assumes "root s = Some r" and "ids_ok r (nodeId s)" and "root (render T s) = Some r'"
  shows "ids_ok r' (nodeId (render T s))"
proof -
  have "ids_ok r' (snd (joined T s r)) = ids_ok (fst (joined T s r)) (snd (joined T s r))"
    by (rule ids_ok_cong) (rule render_nid [OF assms(1) assms(3)])
  then show ?thesis using joined_ids_ok [OF assms(2)] render_Some(2) [OF assms(1)] by simp
qed

lemma render_counter: "nodeId s \<le> nodeId (render T s)"
proof (cases "root s")
  case None
  then show ?thesis by (simp add: render_None)
next
  case (Some r)
  have "nodeId s \<le> snd (data_join (tl (descendants r)) (laid T s r, nodeId s))"
    using data_join_mono [of "(laid T s r, nodeId s)"] by simp
  also have "\<dots> \<le> snd (joined T s r)"
    unfolding joined_laid by (rule data_join_mono)
  finally show ?thesis using render_Some(2) [OF Some] by simp
qed

lemma joined_keyed:
  assumes "q \<in> set (descendants r)"
  shows "keyed q (fst (joined T s r))"
proof (cases "attrs_at q (fst (joined T s r))")
  case None
  then show ?thesis by (simp add: keyed_def)
next
  case (Some a)
  let ?st = "data_join (tl (descendants r)) (laid T s r, nodeId s)"
  have "attrs_at q (fst ?st) \<noteq> None"
    using data_join_others [of q "descendants r" ?st] Some unfolding joined_laid
    by (cases "attrs_at q (fst ?st)") simp_all
  then show ?thesis
    using data_join_assigns [OF assms, of ?st] unfolding joined_laid by (auto simp: keyed_def)
qed

lemma render_keyed:
  assumes "root s = Some r" and "root (render T s) = Some r'" and "q \<in> set (descendants r)"
  shows "keyed q r'"
  using keyed_cong [OF render_nid [OF assms(1,2)], of q] joined_keyed [OF assms(3)] by simp

lemma descendants_render:
  assumes "root s = Some r" and "root (render T s) = Some r'"
  shows "descendants r' = descendants r"
proof -
  have "struct r' = struct r" using render_root [OF assms(1), of T] assms(2) by auto
  then show ?thesis by (rule descendants_cong)
qed

lemma render_twice_ids:
  assumes "root s = Some r"
  shows "nodeId (render T (render T s)) = nodeId (render T s)"
    and "id_at (render T (render T s)) q = id_at (render T s) q"
proof -
  obtain r' where r': "root (render T s) = Some r'"
    using render_Some(1) [OF assms] by simp
  let ?s' = "render T s"
  have ds: "descendants r' = descendants r" by (rule descendants_render [OF assms r'])
  have k: "\<forall>q\<in>set (descendants r'). keyed q (laid T ?s' r')"
  proof
    fix q assume "q \<in> set (descendants r')"
    then have "keyed q r'" using render_keyed [OF assms r'] ds by simp
    then show "keyed q (laid T ?s' r')" using keyed_cong [OF laid_nid] by simp
  qed
  have k1: "\<forall>q\<in>set (tl (descendants r')). keyed q (laid T ?s' r')"
    using k by (metis list.set_sel(2) tl_Nil)
  have j: "joined T ?s' r' = (laid T ?s' r', nodeId ?s')"
    unfolding joined_laid using k k1 by (simp add: data_join_noop)
  show "nodeId (render T ?s') = nodeId ?s'"
    using render_Some(2) [OF r', of T] j by simp
  obtain r'' where r'': "root (render T ?s') = Some r''"
    using render_Some(1) [OF r'] by simp
  have "map_option nid (attrs_at q r'') = map_option nid (attrs_at q r')"
    using render_nid [OF r' r'', of q] j laid_nid [of q T ?s' r'] by simp
  then show "id_at (render T ?s') q = id_at ?s' q"
    using r' r'' by (cases "attrs_at q r''"; cases "attrs_at q r'") (simp_all add: id_at_def)
qed

subsection \<open>The depth axis\<close>

lemma funpow_estab:
  fixes f :: "'a \<Rightarrow> 'a"
  assumes "\<And>a. Q (f a)"
  shows "Q ((f ^^ Suc n) a)"
  by (simp add: assms)

lemma laid_py:
  assumes "q \<in> set (descendants r)" and "attrs_at q (laid T s r) = Some a"
  shows "py a = Some (real (depth a) * 180)"
proof -
  let ?g = "\<lambda>a::attrs. a\<lparr>py := Some (real (depth a) * 180)\<rparr>"
  let ?r1 = "forEach (descendants r)
          (\<lambda>p a. a\<lparr>px := Some (T (height s - 20 - 20, width s - 20 - 20) r p)\<rparr>) r"
  have "count_list (descendants r) q \<noteq> 0" using assms(1) by (simp add: count_list_0_iff)
  then obtain m where m: "count_list (descendants r) q = Suc m"
    by (cases "count_list (descendants r) q") auto
  have "\<And>b. py ((?g ^^ count_list (descendants r) q) b)
           = Some (real (depth ((?g ^^ count_list (descendants r) q) b)) * 180)"
    unfolding m by (rule funpow_estab) simp
  then show ?thesis
    using assms(2) by (auto simp: laid_def attrs_at_forEach)
qed

lemma render_py:
  assumes "root s = Some r" and "root (render T s) = Some r'"
    and "q \<in> set (descendants r)" and "attrs_at q r' = Some a"
  shows "py a = Some (real (depth a) * 180)"
proof -
  let ?Q = "\<lambda>a::attrs. py a = Some (real (depth a) * 180)"
  let ?st = "\<lambda>a::attrs. a\<lparr>px0 := px a, py0 := py a\<rparr>"
  let ?r4 = "fst (joined T s r)"
  have r': "r' = forEach (descendants r) (\<lambda>p. ?st) ?r4"
    using render_Some(1) [OF assms(1), of T] assms(2) by simp
  obtain a4 where a4: "attrs_at q ?r4 = Some a4" and a: "a = (?st ^^ count_list (descendants r) q) a4"
    using assms(4) unfolding r' by (auto simp: attrs_at_forEach)
  have "map_option (\<lambda>a. a\<lparr>nid := None\<rparr>) (attrs_at q ?r4)
        = map_option (\<lambda>a. a\<lparr>nid := None\<rparr>) (attrs_at q (laid T s r))"
    unfolding joined_laid by (simp add: data_join_others)
  then obtain a2 where a2: "attrs_at q (laid T s r) = Some a2" and e: "a4\<lparr>nid := None\<rparr> = a2\<lparr>nid := None\<rparr>"
    using a4 by (cases "attrs_at q (laid T s r)") auto
  have "?Q a2" using laid_py [OF assms(3) a2] .
  moreover have "py a4 = py a2" "depth a4 = depth a2"
    using arg_cong [OF e, of py] arg_cong [OF e, of depth] by simp_all
  ultimately have "?Q a4" by simp
  moreover have "py ((?st ^^ n) b) = py b" for n b
    by (rule funpow_keeps) simp
  moreover have "depth ((?st ^^ n) b) = depth b" for n b
    by (rule funpow_keeps) simp
  ultimately show ?thesis using a by simp
qed

subsection \<open>Fresh ids\<close>

lemma key_fn_fresh:
  assumes "attrs_at q (fst (key_fn p (r, k))) = Some a'" and "nid a' = Some i"
  shows "(\<exists>a. attrs_at q r = Some a \<and> nid a = Some i) \<or> k < i"
  using assms by (auto simp: attrs_at_key_fn split: if_splits)

lemma data_join_fresh:
  "attrs_at q (fst (data_join ps st)) = Some a' \<Longrightarrow> nid a' = Some i
   \<Longrightarrow> (\<exists>a. attrs_at q (fst st) = Some a \<and> nid a = Some i) \<or> snd st < i"
proof (induction ps arbitrary: st)
  case Nil
  then show ?case by simp
next
  case (Cons p ps)
  from Cons.IH [of "key_fn p st"] Cons.prems
  have "(\<exists>a. attrs_at q (fst (key_fn p st)) = Some a \<and> nid a = Some i) \<or> snd (key_fn p st) < i"
    by (simp add: data_join_Cons)
  moreover have "snd st \<le> snd (key_fn p st)" by (cases st) (simp add: key_fn_snd)
  ultimately show ?case using key_fn_fresh [of q p "fst st" "snd st" _ i] by auto
qed

lemma render_fresh:
  assumes "root s = Some r" and "root (render T s) = Some r'"
    and "attrs_at q r' = Some a'" and "nid a' = Some i"
  shows "(\<exists>a. attrs_at q r = Some a \<and> nid a = Some i) \<or> nodeId s < i"
proof -
  have "map_option nid (attrs_at q (fst (joined T s r))) = Some (Some i)"
    using render_nid [OF assms(1,2), of q] assms(3,4) by simp
  then obtain a4 where a4: "attrs_at q (fst (joined T s r)) = Some a4" "nid a4 = Some i"
    by (cases "attrs_at q (fst (joined T s r))") auto
  let ?st = "data_join (tl (descendants r)) (laid T s r, nodeId s)"
  from data_join_fresh [of q "descendants r" ?st a4 i] a4
  have "(\<exists>a. attrs_at q (fst ?st) = Some a \<and> nid a = Some i) \<or> snd ?st < i"
    by (simp add: joined_laid)
  moreover have "nodeId s \<le> snd ?st" using data_join_mono [of "(laid T s r, nodeId s)"] by simp
  ultimately have "(\<exists>a. attrs_at q (laid T s r) = Some a \<and> nid a = Some i) \<or> nodeId s < i"
    using data_join_fresh [of q "tl (descendants r)" "(laid T s r, nodeId s)" _ i] by auto
  moreover have "(\<exists>a. attrs_at q (laid T s r) = Some a \<and> nid a = Some i)
                 = (\<exists>a. attrs_at q r = Some a \<and> nid a = Some i)"
    using laid_nid [of q T s r] by (cases "attrs_at q (laid T s r)"; cases "attrs_at q r") auto
  ultimately show ?thesis by simp
qed

subsection \<open>The ids through the operations\<close>

lemma ids_ok_attrs_cong: "(\<And>q. attrs_at q r' = attrs_at q r) \<Longrightarrow> ids_ok r' k = ids_ok r k"
  by (rule ids_ok_cong) simp

lemma ids_ok_no_ids: "(\<And>p a. attrs_at p r = Some a \<Longrightarrow> nid a = None) \<Longrightarrow> ids_ok r k"
  unfolding ids_ok_def by fastforce

lemma kids_hierarchy_at:
  "kids (hierarchy_at k d) = map (hierarchy_at (Suc k)) (td_children d)"
  by (cases d) (simp add: kids_def)

lemma hierarchy_no_ids: "attrs_at p (hierarchy_at k d) = Some a \<Longrightarrow> nid a = None"
proof (induction p arbitrary: k d)
  case Nil
  then show ?case by (cases d) auto
next
  case (Cons i p)
  then show ?case by (auto simp: attrs_at_Cons kids_hierarchy_at split: if_splits)
qed

lemma collapse_if: "(\<lambda>c. if children c \<noteq> None then collapse c else c) = collapse"
proof
  fix c show "(if children c \<noteq> None then collapse c else c) = collapse c"
    by (cases c) (auto split: option.splits)
qed

lemma collapse_children_eq:
  "collapse_children r
     = (case children r of None \<Rightarrow> r | Some cs \<Rightarrow> Node (attrs r) (Some (map collapse cs)) (uchildren r))"
  unfolding collapse_children_def collapse_if ..

lemma attrs_at_collapse_kids:
  "attrs_at q (case children r of None \<Rightarrow> r
               | Some cs \<Rightarrow> Node (attrs r) (Some (map collapse cs)) (uchildren r)) = attrs_at q r"
proof (cases "children r")
  case None
  then show ?thesis by simp
next
  case (Some cs)
  then have "kids r = cs" by (simp add: kids_def)
  then show ?thesis
    using Some by (cases q) (simp_all add: attrs_at_Cons kids_def attrs_at_collapse)
qed

lemma attrs_at_set_attrs:
  "attrs_at q (set_attrs g n) = (if q = [] then Some (g (attrs n)) else attrs_at q n)"
  using attrs_at_update_attrs [of q "[]" g n] by (cases q) (simp_all add: attrs_at_Cons)

lemma id_at_Some: "root s = Some r \<Longrightarrow> id_at s p = (case attrs_at p r of None \<Rightarrow> None | Some a \<Rightarrow> nid a)"
  by (simp add: id_at_def)

lemma ids_inv_render: "ids_inv s \<Longrightarrow> ids_inv (render T s)"
proof (cases "root s")
  case None
  then show "ids_inv s \<Longrightarrow> ids_inv (render T s)" by (simp add: render_None)
next
  case (Some r)
  assume "ids_inv s"
  then have ok: "ids_ok r (nodeId s)" using Some by (simp add: ids_inv_def)
  obtain r' where r': "root (render T s) = Some r'" using render_Some(1) [OF Some] by simp
  show "ids_inv (render T s)"
    using render_ids_ok [OF Some ok r'] r' by (simp add: ids_inv_def)
qed

text \<open>A change of the tree that keeps the fields at every path, then a render.\<close>

lemma ids_inv_restructure:
  assumes "ids_inv s" and "root s = Some r" and "\<And>q. attrs_at q r' = attrs_at q r"
  shows "ids_inv (s\<lparr>root := Some r'\<rparr>)"
  using assms ids_ok_attrs_cong [of r' r "nodeId s"] by (simp add: ids_inv_def)

lemma keep_restructure_render:
  assumes "ids_inv s" and "root s = Some r" and "\<And>q. attrs_at q r' = attrs_at q r"
    and "id_at s p = Some i"
  shows "id_at (render T (s\<lparr>root := Some r'\<rparr>)) p = Some i"
proof -
  obtain a where a: "attrs_at p r = Some a" "nid a = Some i"
    using assms(2,4) by (auto simp: id_at_def split: option.splits)
  then have pos: "0 < i" using assms(1,2) unfolding ids_inv_def ids_ok_def by auto
  have "attrs_at p r' = Some a" using a(1) assms(3) by simp
  then obtain r'' a'' where "root (render T (s\<lparr>root := Some r'\<rparr>)) = Some r''"
      "attrs_at p r'' = Some a''" "nid a'' = Some i"
    using render_keep [of "s\<lparr>root := Some r'\<rparr>" r' p a i T] a(2) pos by auto
  then show ?thesis by (simp add: id_at_def)
qed

lemma fresh_restructure_render:
  assumes "root s = Some r" and "\<And>q. attrs_at q r' = attrs_at q r"
    and "id_at (render T (s\<lparr>root := Some r'\<rparr>)) p = Some i"
  shows "id_at s p = Some i \<or> nodeId s < i"
proof -
  let ?s = "s\<lparr>root := Some r'\<rparr>"
  obtain r'' where r'': "root (render T ?s) = Some r''"
    using render_Some(1) [of ?s r' T] by simp
  then obtain a'' where a'': "attrs_at p r'' = Some a''" "nid a'' = Some i"
    using assms(3) by (auto simp: id_at_def split: option.splits)
  from render_fresh [OF _ r'' a''] have "(\<exists>a. attrs_at p r' = Some a \<and> nid a = Some i) \<or> nodeId s < i"
    by simp
  then show ?thesis using assms(1,2) by (auto simp: id_at_def)
qed

lemma attrs_at_restructured: "wf_node r \<Longrightarrow> attrs_at q (restructured o' r) = attrs_at q r"
  by (cases o')
    (simp_all add: restructured_def attrs_at_update_at attrs_at_toggle attrs_at_collapse
      attrs_at_expand attrs_at_collapse_kids)

lemma exec_restructured:
  assumes "keeps_tree o'" and "root s = Some r"
  shows "\<exists>s1. root s1 = Some r \<and> nodeId s1 = nodeId s \<and> id_at s1 = id_at s \<and> ids_inv s1 = ids_inv s
            \<and> (exec T o' s = render T (s1\<lparr>root := Some (restructured o' r)\<rparr>)
               \<or> exec T o' s = s1\<lparr>root := Some (restructured o' r)\<rparr>)"
proof (cases o')
  case (Resize w h)
  let ?s1 = "updateDimensions w h s"
  have "root ?s1 = Some r" "nodeId ?s1 = nodeId s" "id_at ?s1 = id_at s" "ids_inv ?s1 = ids_inv s"
    using assms(2) by (auto simp: updateDimensions_def id_at_def ids_inv_def)
  moreover have e: "?s1\<lparr>root := Some r\<rparr> = ?s1" using assms(2) by (simp add: updateDimensions_def)
  moreover have "exec T o' s = render T (?s1\<lparr>root := Some (restructured o' r)\<rparr>)"
    using Resize by (simp add: resize_def restructured_def e)
  ultimately show ?thesis by blast
qed (use assms in \<open>auto simp: toggleNode_def expandAll_def collapseAll_def restructured_def
        intro!: exI [of _ s]\<close>)

lemma ids_inv_updateTree:
  assumes "updateTree T treeData s = Inr s'"
  shows "ids_inv s'" and "id_at s' p = Some i \<Longrightarrow> nodeId s < i" and "nodeId s \<le> nodeId s'"
proof -
  have "ids_inv s' \<and> (id_at s' p = Some i \<longrightarrow> nodeId s < i) \<and> nodeId s \<le> nodeId s'"
  proof (cases "no_data treeData = Inr False")
    case False
    then have "s' = clearTree s"
      using assms by (auto simp: updateTree_def split: sum.splits bool.splits)
    then show ?thesis by (simp add: ids_inv_def id_at_def clearTree_def showEmptyState_def)
  next
    case True
    then obtain d where d: "treeData = PObject d"
      by (cases treeData) (simp_all add: no_data_def)
    define g :: "attrs \<Rightarrow> attrs" where "g = (\<lambda>a. a\<lparr>px0 := Some (height (hideEmptyState s) / 2), py0 := Some 0\<rparr>)"
    define r0 where "r0 = collapse_children (set_attrs g (hierarchy d))"
    define s1 where "s1 = (hideEmptyState s)\<lparr>root := Some r0\<rparr>"
    have s': "s' = render T s1"
      using assms True d by (simp add: updateTree_def Let_def s1_def r0_def g_def)
    have none: "\<And>q a. attrs_at q r0 = Some a \<Longrightarrow> nid a = None"
    proof -
      fix q a assume "attrs_at q r0 = Some a"
      then have "attrs_at q (set_attrs g (hierarchy d)) = Some a"
        by (simp add: r0_def collapse_children_eq attrs_at_collapse_kids)
      then show "nid a = None"
        using hierarchy_no_ids [of q 0 d]
        by (auto simp: attrs_at_set_attrs hierarchy_def g_def split: if_splits)
    qed
    have "ids_inv s1" by (simp add: ids_inv_def s1_def ids_ok_no_ids none)
    then have 1: "ids_inv s'" unfolding s' by (rule ids_inv_render)
    have k: "nodeId s1 = nodeId s" by (simp add: s1_def hideEmptyState_def)
    have 2: "id_at s' p = Some i \<longrightarrow> nodeId s < i"
    proof
      assume h: "id_at s' p = Some i"
      have r1: "root s1 = Some r0" by (simp add: s1_def)
      obtain r' where r': "root (render T s1) = Some r'" using render_Some(1) [OF r1] by simp
      then obtain a' where "attrs_at p r' = Some a'" "nid a' = Some i"
        using h s' by (auto simp: id_at_def split: option.splits)
      from render_fresh [OF r1 r' this] none k show "nodeId s < i" by auto
    qed
    have 3: "nodeId s \<le> nodeId s'" using render_counter [of s1 T] k s' by simp
    show ?thesis using 1 2 3 by simp
  qed
  then show "ids_inv s'" and "id_at s' p = Some i \<Longrightarrow> nodeId s < i" and "nodeId s \<le> nodeId s'"
    by simp_all
qed

lemma exec_ids:
  assumes "tree_ok s" and "ids_inv s"
  shows "ids_inv (exec T o' s)"
    and "keeps_tree o' \<Longrightarrow> id_at s p = Some i \<Longrightarrow> id_at (exec T o' s) p = Some i"
    and "id_at (exec T o' s) p = Some i \<Longrightarrow> (keeps_tree o' \<and> id_at s p = Some i) \<or> nodeId s < i"
    and "nodeId s \<le> nodeId (exec T o' s)"
proof -
  have "ids_inv (exec T o' s)
      \<and> (keeps_tree o' \<and> id_at s p = Some i \<longrightarrow> id_at (exec T o' s) p = Some i)
      \<and> (id_at (exec T o' s) p = Some i \<longrightarrow> (keeps_tree o' \<and> id_at s p = Some i) \<or> nodeId s < i)
      \<and> nodeId s \<le> nodeId (exec T o' s)"
  proof (cases "keeps_tree o'")
    case False
    then show ?thesis
    proof (cases o')
      case (UpdateTree treeData)
      obtain s' where s': "updateTree T treeData s = Inr s'" using updateTree_total by blast
      then show ?thesis
        using ids_inv_updateTree [OF s'] UpdateTree by auto
    next
      case ClearTree
      then show ?thesis by (simp add: ids_inv_def id_at_def clearTree_def showEmptyState_def)
    qed simp_all
  next
    case True
    show ?thesis
    proof (cases "root s")
      case None
      then have "root (exec T o' s) = None \<and> nodeId (exec T o' s) = nodeId s"
        using True
        by (cases o')
          (simp_all add: toggleNode_def render_None expandAll_def collapseAll_def resize_def
            updateDimensions_def)
      then show ?thesis using None by (simp add: ids_inv_def id_at_def)
    next
      case (Some r)

      have wf: "wf_node r" using assms(1) Some by (simp add: tree_ok_def)
      obtain s1 where s1: "root s1 = Some r" "nodeId s1 = nodeId s" "id_at s1 = id_at s"
          "ids_inv s1 = ids_inv s"
          "exec T o' s = render T (s1\<lparr>root := Some (restructured o' r)\<rparr>)
           \<or> exec T o' s = s1\<lparr>root := Some (restructured o' r)\<rparr>"
        using exec_restructured [OF True Some, of T] by auto
      note at = attrs_at_restructured [OF wf, of _ o']
      have inv1: "ids_inv s1" using s1(4) assms(2) by simp
      let ?s2 = "s1\<lparr>root := Some (restructured o' r)\<rparr>"
      have inv2: "ids_inv ?s2" using ids_inv_restructure [OF inv1 s1(1) at] .
      have id2: "id_at ?s2 = id_at s"
        using s1(1,3) at by (auto simp: id_at_def fun_eq_iff)
      from s1(5) show ?thesis
      proof
        assume e: "exec T o' s = ?s2"
        then show ?thesis using inv2 id2 s1(2) True by simp
      next
        assume e: "exec T o' s = render T ?s2"
        have a: "ids_inv (exec T o' s)" unfolding e using inv2 by (rule ids_inv_render)
        have b: "id_at s p = Some i \<longrightarrow> id_at (exec T o' s) p = Some i"
          unfolding e using keep_restructure_render [OF inv1 s1(1) at, of p i T] s1(3) by simp
        have c: "id_at (exec T o' s) p = Some i \<longrightarrow> id_at s p = Some i \<or> nodeId s < i"
          unfolding e using fresh_restructure_render [OF s1(1) at, of T p i] s1(2,3) by simp
        have d: "nodeId s \<le> nodeId (exec T o' s)"
          unfolding e using render_counter [of ?s2 T] s1(2) by simp
        show ?thesis using a b c d True by simp
      qed
    qed
  qed
  then show "ids_inv (exec T o' s)"
    and "keeps_tree o' \<Longrightarrow> id_at s p = Some i \<Longrightarrow> id_at (exec T o' s) p = Some i"
    and "id_at (exec T o' s) p = Some i \<Longrightarrow> (keeps_tree o' \<and> id_at s p = Some i) \<or> nodeId s < i"
    and "nodeId s \<le> nodeId (exec T o' s)"
    by simp_all
qed

lemma ids_inv_run: "tree_ok s \<Longrightarrow> ids_inv s \<Longrightarrow> ids_inv (run T ops s)"
  unfolding run_def
  by (induction ops arbitrary: s) (simp_all add: tree_ok_exec exec_ids(1))

lemma ids_inv_init: "ids_inv (init w h es)"
  by (simp add: ids_inv_def init_def updateDimensions_def)

subsection \<open>The breadth-first list holds the visible paths\<close>

lemma vis_kids: "i < length (vis n) \<Longrightarrow> kids n = vis n"
  by (cases n) (auto simp: vis_def kids_def split: option.splits)

lemma visible_node_at: "visible_at p r = Some n \<Longrightarrow> node_at p r = Some n"
proof (induction p arbitrary: r)
  case Nil
  then show ?case by simp
next
  case (Cons i p)
  from Cons.prems have i: "i < length (vis r)" and v: "visible_at p (vis r ! i) = Some n"
    by (auto split: if_splits)
  show ?case using Cons.IH [OF v] i vis_kids [OF i] by simp
qed

lemma vpaths_unfold:
  "vpaths n = insert [] {i # s | i s. i < length (vis n) \<and> s \<in> vpaths (vis n ! i)}"
proof (rule set_eqI)
  fix s
  show "s \<in> vpaths n \<longleftrightarrow> s \<in> insert [] {i # s | i s. i < length (vis n) \<and> s \<in> vpaths (vis n ! i)}"
    by (cases s) (auto simp: vpaths_def)
qed

lemma below_Nil [simp]: "below [] = {}"
  by (simp add: below_def)

lemma below_append: "below (q @ q') = below q \<union> below q'"
  by (auto simp: below_def)

lemma below_Cons: "below (x # q) = (\<lambda>s. fst x @ s) ` vpaths (snd x) \<union> below q"
  by (auto simp: below_def)

lemma below_enqueue:
  "(\<lambda>s. p @ s) ` vpaths n = insert p (below (enqueue p n))"
proof -
  have "below (enqueue p n)
        = (\<Union>i\<in>{0..<length (vis n)}. (\<lambda>s. (p @ [i]) @ s) ` vpaths (vis n ! i))"
    by (auto simp: below_def enqueue_def)
  also have "\<dots> = (\<lambda>s. p @ s) ` {i # s | i s. i < length (vis n) \<and> s \<in> vpaths (vis n ! i)}"
    by (auto simp: image_iff)
  finally show ?thesis
    by (subst vpaths_unfold) auto
qed

lemma bfs_set: "set (bfs q) = below q"
proof (induction q rule: bfs.induct)
  case 1
  show ?case by simp
next
  case (2 p n q)
  show ?case
    using 2 below_enqueue [of p n] by (auto simp: below_append below_Cons)
qed

lemma descendants_visible: "set (descendants r) = {p. visible_at p r \<noteq> None}"
  by (simp add: descendants_def bfs_set below_def vpaths_def del: bfs.simps)

lemma set_map_filter: "set (List.map_filter f xs) = {y. \<exists>x\<in>set xs. f x = Some y}"
  by (induction xs) (auto simp: map_filter_simps split: option.splits)

lemma visible_nodes_set: "set (visible_nodes r) = {n. \<exists>p. visible_at p r = Some n}"
proof (rule set_eqI)
  fix n
  have "n \<in> set (visible_nodes r) \<longleftrightarrow> (\<exists>p\<in>set (descendants r). node_at p r = Some n)"
    by (simp add: visible_nodes_def set_map_filter)
  also have "\<dots> \<longleftrightarrow> (\<exists>p. visible_at p r = Some n)"
    using visible_node_at [of _ r] by (fastforce simp: descendants_visible)
  finally show "n \<in> set (visible_nodes r) \<longleftrightarrow> n \<in> {n. \<exists>p. visible_at p r = Some n}" by simp
qed

subsection \<open>The previous position of the root through the joins\<close>

lemma laid_x0:
  assumes "attrs_at q r = Some a"
  shows "\<exists>a'. attrs_at q (laid T s r) = Some a' \<and> px0 a' = px0 a \<and> py0 a' = py0 a"
proof -
  let ?gx = "\<lambda>a::attrs. a\<lparr>px := Some (T (height s - 20 - 20, width s - 20 - 20) r q)\<rparr>"
  let ?gy = "\<lambda>a::attrs. a\<lparr>py := Some (real (depth a) * 180)\<rparr>"
  have x: "px0 ((?gx ^^ n) b) = px0 b" "py0 ((?gx ^^ n) b) = py0 b" for n b
    by (rule funpow_keeps, simp)+
  have y: "px0 ((?gy ^^ n) b) = px0 b" "py0 ((?gy ^^ n) b) = py0 b" for n b
    by (rule funpow_keeps, simp)+
  show ?thesis using assms x y by (simp add: laid_def attrs_at_forEach)
qed

lemma joined_x0:
  assumes "attrs_at q r = Some a"
  shows "\<exists>a'. attrs_at q (fst (joined T s r)) = Some a' \<and> px0 a' = px0 a \<and> py0 a' = py0 a"
proof -
  obtain a2 where a2: "attrs_at q (laid T s r) = Some a2" "px0 a2 = px0 a" "py0 a2 = py0 a"
    using laid_x0 [OF assms, of T s] by auto
  let ?st = "data_join (tl (descendants r)) (laid T s r, nodeId s)"
  have "map_option (\<lambda>a. a\<lparr>nid := None\<rparr>) (attrs_at q (fst (joined T s r)))
        = map_option (\<lambda>a. a\<lparr>nid := None\<rparr>) (attrs_at q (laid T s r))"
    unfolding joined_laid by (simp add: data_join_others)
  then obtain a4 where a4: "attrs_at q (fst (joined T s r)) = Some a4"
      and e: "a4\<lparr>nid := None\<rparr> = a2\<lparr>nid := None\<rparr>"
    using a2(1) by (cases "attrs_at q (fst (joined T s r))") auto
  have "px0 a4 = px0 a2" "py0 a4 = py0 a2"
    using arg_cong [OF e, of px0] arg_cong [OF e, of py0] by simp_all
  then show ?thesis using a4 a2 by simp
qed

lemma joined_root_x0:
  "px0 (attrs (fst (joined T s r))) = px0 (attrs r)"
  "py0 (attrs (fst (joined T s r))) = py0 (attrs r)"
  using joined_x0 [of "[]" r "attrs r" T s] by simp_all

lemma scene_render:
  assumes "root s = Some r"
  shows "scene (render T s)
           = map (\<lambda>n. \<lparr>ekey = nid (attrs n), etransform = (py (attrs n), px (attrs n))\<rparr>)
               (visible_nodes (fst (joined T s r)))"
  using assms by (simp add: render_def Let_def split: prod.splits)

lemma visible_nodes_map:
  assumes "descendants r' = descendants r"
    and "\<And>p. map_option F (attrs_at p r') = map_option F (attrs_at p r)"
  shows "map (\<lambda>n. F (attrs n)) (visible_nodes r') = map (\<lambda>n. F (attrs n)) (visible_nodes r)"
proof -
  have "map (\<lambda>n. F (attrs n)) (visible_nodes x)
        = List.map_filter (\<lambda>p. map_option F (attrs_at p x)) (descendants x)" for x
    unfolding visible_nodes_def attrs_at_def
    by (simp add: map_filter_map_option [symmetric] option.map_comp comp_def)
  then show ?thesis using assms by simp
qed

lemma scene_render_root:
  assumes "root s = Some r" and "root (render T s) = Some r'"
  shows "scene (render T s) = map drawn (visible_nodes r')"
proof -
  let ?F = "\<lambda>a. \<lparr>ekey = nid a, etransform = (py a, px a)\<rparr>"
  let ?st = "\<lambda>a::attrs. a\<lparr>px0 := px a, py0 := py a\<rparr>"
  let ?r4 = "fst (joined T s r)"
  have r': "r' = forEach (descendants r) (\<lambda>p. ?st) ?r4"
    using render_Some(1) [OF assms(1), of T] assms(2) by simp
  have ds: "descendants r' = descendants ?r4"
    using descendants_render [OF assms] descendants_joined [of T s r] by simp
  have k: "?F ((?st ^^ n) b) = ?F b" for n b
    by (rule funpow_keeps) simp
  have "map_option ?F (attrs_at p r') = map_option ?F (attrs_at p ?r4)" for p
    unfolding r' by (simp add: attrs_at_forEach option.map_comp comp_def k)
  then have eq: "map (\<lambda>n. ?F (attrs n)) (visible_nodes r') = map (\<lambda>n. ?F (attrs n)) (visible_nodes ?r4)"
    by (rule visible_nodes_map [OF ds])
  have d: "drawn = (\<lambda>n. ?F (attrs n))" by (simp add: drawn_def fun_eq_iff)
  have "scene (render T s) = map (\<lambda>n. ?F (attrs n)) (visible_nodes ?r4)"
    by (rule scene_render [OF assms(1)])
  also have "\<dots> = map (\<lambda>n. ?F (attrs n)) (visible_nodes r')" using eq by (rule sym)
  finally show ?thesis unfolding d .
qed

subsection \<open>The depth field is the depth\<close>

lemma depth_ok_struct: "depth_ok k (struct n) = depth_ok k n"
  by (induction k n rule: depth_ok.induct) (auto split: option.splits)

lemma depth_ok_hierarchy: "depth_ok k (hierarchy_at k d)"
  by (induction k d rule: hierarchy_at.induct) auto

lemma depth_ok_collapse: "depth_ok k n \<Longrightarrow> depth_ok k (collapse n)"
  by (induction n arbitrary: k rule: collapse.induct) (auto split: option.splits)

lemma depth_ok_expand: "depth_ok k n \<Longrightarrow> depth_ok k (expand n)"
  by (induction n arbitrary: k rule: expand.induct) (auto split: option.splits)

lemma depth_ok_toggle: "depth_ok k n \<Longrightarrow> depth_ok k (toggle_children n)"
  by (cases n) (auto split: option.splits)

lemma depth_ok_set_attrs: "(\<And>a. depth (g a) = depth a) \<Longrightarrow> depth_ok k n \<Longrightarrow> depth_ok k (set_attrs g n)"
  by (cases n) (auto simp: set_attrs_def split: option.splits)

lemma depth_ok_update_at:
  assumes "\<And>m j. depth_ok j m \<Longrightarrow> depth_ok j (f m)"
  shows "depth_ok k n \<Longrightarrow> depth_ok k (update_at p f n)"
proof (induction p arbitrary: k n)
  case Nil
  then show ?case by (simp add: assms)
next
  case (Cons i p)
  have mem: "\<And>cs m. i < length cs \<Longrightarrow> \<forall>n\<in>set cs. depth_ok (Suc k) n \<Longrightarrow>
      m \<in> set (cs[i := update_at p f (cs ! i)]) \<Longrightarrow> depth_ok (Suc k) m"
  proof -
    fix cs m assume i: "i < length cs" and all: "\<forall>n\<in>set cs. depth_ok (Suc k) n"
      and m: "m \<in> set (cs[i := update_at p f (cs ! i)])"
    from m have "m = update_at p f (cs ! i) \<or> m \<in> set cs"
      using set_update_subset_insert [of cs i "update_at p f (cs ! i)"] by auto
    then show "depth_ok (Suc k) m" using i all Cons.IH [of "Suc k" "cs ! i"] by auto
  qed
  show ?case
    using Cons.prems by (cases n) (auto dest: mem split: option.splits)
qed

lemma depth_ok_restructured: "depth_ok k r \<Longrightarrow> depth_ok k (restructured o' r)"
  by (cases o'; cases r)
    (auto simp: restructured_def depth_ok_update_at depth_ok_toggle depth_ok_collapse
      depth_ok_expand simp del: expand.simps split: option.splits)

lemma depth_ok_collapse_children: "depth_ok k r \<Longrightarrow> depth_ok k (collapse_children r)"
  by (cases r) (auto simp: collapse_children_eq depth_ok_collapse split: option.splits)

lemma depth_inv_render: "depth_inv s \<Longrightarrow> depth_inv (render T s)"
proof (cases "root s")
  case None
  then show "depth_inv s \<Longrightarrow> depth_inv (render T s)" by (simp add: render_None)
next
  case (Some r)
  obtain r' where r': "root (render T s) = Some r'" "struct r' = struct r"
    using render_root [OF Some] by blast
  assume "depth_inv s"
  then have "depth_ok 0 r" using Some by (simp add: depth_inv_def)
  then have "depth_ok 0 r'" using r'(2) depth_ok_struct [of 0 r'] depth_ok_struct [of 0 r] by simp
  then show "depth_inv (render T s)" using r'(1) by (simp add: depth_inv_def)
qed

lemma depth_inv_exec: "depth_inv s \<Longrightarrow> depth_inv (exec T o' s)"
proof (cases "keeps_tree o'")
  case True
  assume inv: "depth_inv s"
  show "depth_inv (exec T o' s)"
  proof (cases "root s")
    case None
    then have "root (exec T o' s) = None"
      using True
      by (cases o')
        (simp_all add: toggleNode_def render_None expandAll_def collapseAll_def resize_def
          updateDimensions_def)
    then show ?thesis by (simp add: depth_inv_def)
  next
    case (Some r)
    obtain s1 where s1: "exec T o' s = render T (s1\<lparr>root := Some (restructured o' r)\<rparr>)
           \<or> exec T o' s = s1\<lparr>root := Some (restructured o' r)\<rparr>"
      using exec_restructured [OF True Some, of T] by auto
    have "depth_ok 0 (restructured o' r)"
      using inv Some by (simp add: depth_inv_def depth_ok_restructured)
    then have "depth_inv (s1\<lparr>root := Some (restructured o' r)\<rparr>)" by (simp add: depth_inv_def)
    then show ?thesis using s1 depth_inv_render by auto
  qed
next
  case False
  show "depth_inv (exec T o' s)"
  proof (cases o')
    case (UpdateTree treeData)
    obtain s' where s': "updateTree T treeData s = Inr s'" using updateTree_total by blast
    have "depth_inv s'"
    proof (cases "no_data treeData = Inr False")
      case False
      then have "s' = clearTree s"
        using s' by (auto simp: updateTree_def split: sum.splits bool.splits)
      then show ?thesis by (simp add: depth_inv_def clearTree_def)
    next
      case True
      then obtain d where d: "treeData = PObject d"
        by (cases treeData) (simp_all add: no_data_def)
      define g :: "attrs \<Rightarrow> attrs" where
        "g = (\<lambda>a. a\<lparr>px0 := Some (height (hideEmptyState s) / 2), py0 := Some 0\<rparr>)"
      define r0 where "r0 = collapse_children (set_attrs g (hierarchy d))"
      have "depth_ok 0 r0"
        unfolding r0_def
        by (intro depth_ok_collapse_children depth_ok_set_attrs)
          (simp_all add: g_def hierarchy_def depth_ok_hierarchy)
      then have "depth_inv ((hideEmptyState s)\<lparr>root := Some r0\<rparr>)" by (simp add: depth_inv_def)
      then have "depth_inv (render T ((hideEmptyState s)\<lparr>root := Some r0\<rparr>))"
        by (rule depth_inv_render)
      then show ?thesis
        using s' True d by (simp add: updateTree_def Let_def r0_def g_def)
    qed
    then show ?thesis using UpdateTree s' by simp
  next
    case ClearTree
    then show ?thesis by (simp add: depth_inv_def clearTree_def)
  qed (use False in simp_all)
qed

lemma depth_inv_run: "depth_inv s \<Longrightarrow> depth_inv (run T ops s)"
  unfolding run_def by (induction ops arbitrary: s) (simp_all add: depth_inv_exec)

lemma depth_inv_init: "depth_inv (init w h es)"
  by (simp add: depth_inv_def init_def updateDimensions_def)

lemma depth_ok_vis: "depth_ok k n \<Longrightarrow> i < length (vis n) \<Longrightarrow> depth_ok (Suc k) (vis n ! i)"
  by (cases n) (auto simp: vis_def split: option.splits)

lemma depth_ok_attrs: "depth_ok k n \<Longrightarrow> depth (attrs n) = k"
  by (cases n) simp

lemma depth_visible: "depth_ok k r \<Longrightarrow> visible_at p r = Some n \<Longrightarrow> depth (attrs n) = k + length p"
proof (induction p arbitrary: k r)
  case Nil
  then show ?case by (simp add: depth_ok_attrs)
next
  case (Cons i p)
  from Cons.prems(2) have i: "i < length (vis r)" and v: "visible_at p (vis r ! i) = Some n"
    by (auto split: if_splits)
  show ?case using Cons.IH [OF depth_ok_vis [OF Cons.prems(1) i] v] by simp
qed

subsection \<open>A tree with nothing hidden\<close>

lemma all_nodes_visible_at:
  "\<forall>m\<in>set (all_nodes r). uchildren m = None \<Longrightarrow> n \<in> set (all_nodes r)
   \<Longrightarrow> \<exists>p. visible_at p r = Some n"
proof (induction r rule: all_nodes.induct)
  case (1 a c h)
  have h: "h = None" using 1(3) by simp
  show ?case
  proof (cases "n = Node a c h")
    case True
    then have "visible_at [] (Node a c h) = Some n" by simp
    then show ?thesis by blast
  next
    case False
    then obtain cs x where c: "c = Some cs" and x: "x \<in> set cs" and n: "n \<in> set (all_nodes x)"
      using 1(4) h by (cases c) auto
    have "\<forall>m\<in>set (all_nodes x). uchildren m = None" using 1(3) c x by auto
    then obtain p where p: "visible_at p x = Some n" using 1(1) [OF c x _ n] by blast
    obtain i where i: "i < length cs" "cs ! i = x" using x by (auto simp: in_set_conv_nth)
    have "visible_at (i # p) (Node a c h) = Some n" using c i p by (simp add: vis_def)
    then show ?thesis by blast
  qed
qed

lemma visible_at_all_nodes: "visible_at p r = Some n \<Longrightarrow> n \<in> set (all_nodes r)"
proof (induction p arbitrary: r)
  case Nil
  then have "n = r" by simp
  then show ?case by (cases r) simp
next
  case (Cons i p)
  from Cons.prems have i: "i < length (vis r)" and v: "visible_at p (vis r ! i) = Some n"
    by (auto split: if_splits)
  have "n \<in> set (all_nodes (vis r ! i))" using Cons.IH [OF v] .
  then show ?case using i by (cases r) (auto simp: vis_def split: option.splits)
qed

lemma all_nodes_visible:
  assumes "\<forall>n\<in>set (all_nodes r). uchildren n = None"
  shows "set (all_nodes r) = set (visible_nodes r)"
  using all_nodes_visible_at [OF assms] visible_at_all_nodes [of _ r]
  by (auto simp: visible_nodes_set)

section \<open>The claims\<close>

subsection \<open>The default collapse\<close>

text \<open>
  C1, as stated, fails. The scenario with its root named by the empty string is
  a payload whose root has a child that itself has children; \<open>updateTree\<close>
  takes it for no data and clears, so that there is no root and nothing is
  visible.
\<close>

theorem default_collapse_counterexample:
  "map td_children (td_children unnamed_scenario) = [[TreeData (JStr ''cat'') ''entity'' []]]
   \<and> updateTree mid_layout (PObject unnamed_scenario) page = Inr (clearTree page)
   \<and> root (clearTree page) = None
   \<and> scene (clearTree page) = []"
  by (simp add: unnamed_scenario_def updateTree_def no_data_def clearTree_def)

text \<open>
  C1, amended. For every payload object with a truthy name, \<open>updateTree\<close>
  throws nothing and leaves a root for that payload whose visible nodes are, in
  order, the root
  and the root's direct children and no other node: the paths that
  \<open>descendants()\<close> lists, which are the paths that lead to a node through
  \<open>children\<close> slots, are the empty path and the one-step paths, and the
  payloads of the visible nodes are the payload and its children. The root keeps
  all its children in \<open>children\<close>; every child of the root is collapsed at
  every level (no node at or below it has anything in \<open>children\<close>), and the slot
  invariant holds, so that the hidden nodes are kept, in \<open>_children\<close>.
\<close>

theorem default_collapse:
  assumes "truthy (name d)"
  shows "\<exists>s' r'. updateTree T (PObject d) s = Inr s' \<and> root s' = Some r'
           \<and> data (attrs r') = d \<and> wf_node r'
           \<and> uchildren r' = None \<and> kids r' = vis r'
           \<and> (\<forall>c\<in>set (kids r'). fully_collapsed c)
           \<and> descendants r' = [] # map (\<lambda>i. [i]) [0..<length (td_children d)]
           \<and> {p. visible_at p r' \<noteq> None} = insert [] ((\<lambda>i. [i]) ` {0..<length (td_children d)})
           \<and> map (\<lambda>n. data (attrs n)) (visible_nodes r') = d # td_children d"
proof -
  define g :: "attrs \<Rightarrow> attrs" where "g = (\<lambda>a. a\<lparr>px0 := Some (height (hideEmptyState s) / 2), py0 := Some 0\<rparr>)"
  define r0 where "r0 = collapse_children (set_attrs g (hierarchy d))"
  have g: "\<And>a. data (g a) = data a" by (simp add: g_def)
  note r0 = collapse_children_hierarchy [OF g, of d, folded r0_def]
  have wf0: "wf_node r0"
    unfolding r0_def
    by (intro wf_collapse_children wf_set_attrs) (simp_all add: g hierarchy_def wf_hierarchy_at)
  have upd: "updateTree T (PObject d) s = Inr (render T ((hideEmptyState s)\<lparr>root := Some r0\<rparr>))"
    using assms by (simp add: updateTree_def no_data_def Let_def r0_def g_def)
  obtain r' where r': "root (render T ((hideEmptyState s)\<lparr>root := Some r0\<rparr>)) = Some r'"
      and st: "struct r' = struct r0"
    using render_root [of "(hideEmptyState s)\<lparr>root := Some r0\<rparr>" r0 T] by auto
  have dat: "data (attrs r') = d" using data_struct [OF st] r0(5) by simp
  have wf: "wf_node r'" using wf_struct [of r'] wf_struct [of r0] st wf0 by simp
  have "uchildren (struct r') = None" using st r0(1) by simp
  then have un: "uchildren r' = None" by simp
  then have kv: "kids r' = vis r'" by (simp add: kids_def vis_def split: option.splits)
  have ks: "map struct (kids r') = map struct (kids r0)"
    using st kids_struct [of r'] kids_struct [of r0] by simp
  have fc: "\<forall>c\<in>set (kids r'). fully_collapsed c"
  proof
    fix c assume "c \<in> set (kids r')"
    then have "struct c \<in> set (map struct (kids r0))" using ks by (metis image_eqI set_map)
    then obtain c0 where c0: "c0 \<in> set (kids r0)" "struct c = struct c0" by auto
    then have "fully_collapsed c0" using r0(3) by simp
    then show "fully_collapsed c"
      using c0(2) fully_collapsed_struct [of c] fully_collapsed_struct [of c0] by simp
  qed
  have leaves0: "\<forall>c\<in>set (vis r0). vis c = []"
    using r0(2) r0(3) by (simp add: fully_collapsed_vis)
  have len: "length (vis r0) = length (td_children d)"
    using r0(2) r0(4) by (metis length_map)
  have ds: "descendants r' = [] # map (\<lambda>i. [i]) [0..<length (td_children d)]"
    using descendants_cong [OF st] descendants_two_levels [OF leaves0] len by simp
  have "map (\<lambda>n. data (attrs n)) (visible_nodes r0) = d # td_children d"
    using visible_nodes_two_levels [OF leaves0 r0(2)] r0(2) r0(4) r0(5) by simp
  then have vd: "map (\<lambda>n. data (attrs n)) (visible_nodes r') = d # td_children d"
    using visible_data_cong [OF st] by simp
  have vp: "{p. visible_at p r' \<noteq> None} = insert [] ((\<lambda>i. [i]) ` {0..<length (td_children d)})"
    using descendants_visible [of r'] ds by simp
  show ?thesis using upd r' dat wf un kv fc ds vp vd by simp
qed

text \<open>
  The scenario: after \<open>updateTree\<close> the visible nodes are the root and \<open>E1\<close>; \<open>cat\<close>
  is hidden.
\<close>

theorem default_collapse_witness:
  "truthy (name scenario)
   \<and> (\<exists>s' r'. updateTree mid_layout (PObject scenario) page = Inr s' \<and> root s' = Some r'
         \<and> descendants r' = [[], [0]]
         \<and> map (\<lambda>n. name (data (attrs n))) (visible_nodes r') = [JStr ''root'', JStr ''E1''])"
proof -
  have t: "truthy (name scenario)" by (simp add: scenario_def)
  obtain s' r' where h: "updateTree mid_layout (PObject scenario) page = Inr s'" "root s' = Some r'"
      "descendants r' = [] # map (\<lambda>i. [i]) [0..<length (td_children scenario)]"
      "map (\<lambda>n. data (attrs n)) (visible_nodes r') = scenario # td_children scenario"
    using default_collapse [OF t, of mid_layout page] by auto
  have "map (\<lambda>n. name (data (attrs n))) (visible_nodes r')
        = map name (map (\<lambda>n. data (attrs n)) (visible_nodes r'))"
    by (simp add: comp_def)
  then have "map (\<lambda>n. name (data (attrs n))) (visible_nodes r') = [JStr ''root'', JStr ''E1'']"
    using h(4) by (simp add: scenario_def)
  moreover have "descendants r' = [[], [0]]" using h(3) by (simp add: scenario_def)
  ultimately show ?thesis using t h(1) h(2) by auto
qed

subsection \<open>Toggling a node\<close>

text \<open>
  C2. Let \<open>n\<close> be the node at path \<open>p\<close> of the tree that a sequence of operations
  has left. Up to the ids and coordinates that \<open>render\<close> writes, one
  \<open>toggleNode\<close> on \<open>n\<close> changes the tree at \<open>n\<close> only, and there it exchanges the
  two slots: the children of \<open>n\<close> are the same nodes in the same order, each with
  its own subtree and slots as they were, and every node keeps the id it has.
  Two \<open>toggleNode\<close> in a row give back the tree as it was. On a node without
  children, one \<open>toggleNode\<close> already changes nothing, and the visible paths
  stay the same.
\<close>

theorem toggle_twice_restores:
  assumes "s = run T ops (init w h es)" and "root s = Some r" and "node_at p r = Some n"
  shows "\<exists>r1 r2 n1. root (toggleNode T p s) = Some r1
           \<and> root (toggleNode T p (toggleNode T p s)) = Some r2
           \<and> struct r2 = struct r
           \<and> struct r1 = update_at p toggle_children (struct r)
           \<and> node_at p r1 = Some n1
           \<and> struct n1 = toggle_children (struct n)
           \<and> map struct (kids n1) = map struct (kids n)
           \<and> (kids n = [] \<longrightarrow> struct r1 = struct r \<and> descendants r1 = descendants r)
           \<and> (\<forall>q i. id_at s q = Some i \<longrightarrow> id_at (toggleNode T p s) q = Some i)"
proof -
  have "tree_ok s" unfolding assms(1) by (rule tree_ok_run) (rule tree_ok_init)
  then have wf: "wf_node r" using assms(2) by (simp add: tree_ok_def)
  have wfs: "wf_node (struct r)" using wf by (simp add: wf_struct)
  have wfn: "wf_node n" using wf assms(3) by (rule wf_node_at)
  have comm: "\<And>x. struct (update_at p toggle_children x) = update_at p toggle_children (struct x)"
    by (rule struct_update_at_comm) (rule struct_toggle)
  obtain r1 where r1: "root (toggleNode T p s) = Some r1"
      and st1: "struct r1 = update_at p toggle_children (struct r)"
    using render_root [of "s\<lparr>root := Some (update_at p toggle_children r)\<rparr>" _ T] assms(2) comm
    by (auto simp: toggleNode_def)
  obtain r2 where r2: "root (toggleNode T p (toggleNode T p s)) = Some r2"
      and st2: "struct r2 = update_at p toggle_children (struct r1)"
    using render_root [of "(toggleNode T p s)\<lparr>root := Some (update_at p toggle_children r1)\<rparr>" _ T]
      r1 comm
    by (auto simp: toggleNode_def [of T p "toggleNode T p s"])
  have restored: "struct r2 = struct r"
    using st2 st1 toggle_twice_at [OF wfs] by simp
  have "map_option struct (node_at p r1) = Some (toggle_children (struct n))"
    using st1 assms(3) node_at_struct [of p r1] node_at_struct [of p r]
      node_at_update_at_same [of p toggle_children "struct r"] by simp
  then obtain n1 where n1: "node_at p r1 = Some n1" and sn1: "struct n1 = toggle_children (struct n)"
    by auto
  have kn: "map struct (kids n1) = map struct (kids n)"
    using sn1 kids_struct [of n1] kids_struct [of n] kids_toggle [of "struct n"] by simp
  have leaf: "kids n = [] \<longrightarrow> struct r1 = struct r \<and> descendants r1 = descendants r"
  proof
    assume "kids n = []"
    then have "toggle_children n = n" using wfn by (simp add: toggle_leaf)
    then have "toggle_children (struct n) = struct n" using struct_toggle [of n] by simp
    then have "update_at p toggle_children (struct r) = struct r"
      using assms(3) by (intro update_at_fix) (simp add: node_at_struct)
    then have "struct r1 = struct r" using st1 by simp
    then show "struct r1 = struct r \<and> descendants r1 = descendants r"
      using descendants_cong [of r1 r] by simp
  qed
  have inv: "ids_inv s"
    unfolding assms(1) by (rule ids_inv_run) (rule tree_ok_init, rule ids_inv_init)
  have ids: "\<forall>q i. id_at s q = Some i \<longrightarrow> id_at (toggleNode T p s) q = Some i"
    using exec_ids(2) [OF \<open>tree_ok s\<close> inv, of "ToggleNode p" _ _ T] by simp
  show ?thesis
    by (intro exI conjI) (fact r1 r2 restored st1 n1 sn1 kn leaf ids)+
qed

text \<open>
  The scenario, built: \<open>E1\<close> is collapsed; one \<open>toggleNode\<close> shows \<open>cat\<close>, a second
  one hides it again.
\<close>

theorem toggle_twice_restores_witness:
  "\<exists>r r1 r2. root (run mid_layout [UpdateTree (PObject scenario)] (init 800 500 (Some Hidden))) = Some r
      \<and> node_at [0] r \<noteq> None
      \<and> root (toggleNode mid_layout [0]
                (run mid_layout [UpdateTree (PObject scenario)] (init 800 500 (Some Hidden)))) = Some r1
      \<and> descendants r = [[], [0]] \<and> descendants r1 = [[], [0], [0, 0]]
      \<and> root (toggleNode mid_layout [0] (toggleNode mid_layout [0]
                (run mid_layout [UpdateTree (PObject scenario)] (init 800 500 (Some Hidden))))) = Some r2
      \<and> struct r2 = struct r"
proof -
  let ?s = "run mid_layout [UpdateTree (PObject scenario)] (init 800 500 (Some Hidden))"
  have "\<exists>r n. root ?s = Some r \<and> node_at [0] r = Some n \<and> descendants r = [[], [0]]"
    by (simp add: eval_defs)
  then obtain r n where r: "root ?s = Some r" and n: "node_at [0] r = Some n"
      and d: "descendants r = [[], [0]]"
    by auto
  have "\<exists>r1. root (toggleNode mid_layout [0] ?s) = Some r1 \<and> descendants r1 = [[], [0], [0, 0]]"
    by (simp add: eval_defs)
  then obtain r1 where r1: "root (toggleNode mid_layout [0] ?s) = Some r1"
      and d1: "descendants r1 = [[], [0], [0, 0]]"
    by auto
  obtain r1' r2 where r1': "root (toggleNode mid_layout [0] ?s) = Some r1'"
      and r2: "root (toggleNode mid_layout [0] (toggleNode mid_layout [0] ?s)) = Some r2"
      and st: "struct r2 = struct r"
    using toggle_twice_restores [OF refl r n] by auto
  have ne: "node_at [0] r \<noteq> None" using n by simp
  show ?thesis
    by (intro exI conjI) (fact r ne r1 d d1 r2 st)+
qed

subsection \<open>Expanding everything\<close>

text \<open>
  C3. After any sequence of operations that leaves a tree, \<open>expandAll\<close> leaves a
  tree for the same payload in which no node, in whichever slot it stands, has
  anything in \<open>_children\<close>, in which every node is visible, and whose visible
  part is the whole payload: every payload object is shown, at its place.
\<close>

theorem expandAll_shows_all:
  assumes "root (run T ops (init w h es)) = Some r"
  shows "\<exists>r'. root (expandAll T (run T ops (init w h es))) = Some r'
           \<and> (\<forall>n\<in>set (all_nodes r'). uchildren n = None)
           \<and> set (visible_nodes r') = set (all_nodes r')
           \<and> vis_tree r' = data (attrs r)
           \<and> data (attrs r') = data (attrs r)"
proof -
  let ?s = "run T ops (init w h es)"
  have "tree_ok ?s" by (rule tree_ok_run) (rule tree_ok_init)
  then have wf: "wf_node r" using assms by (simp add: tree_ok_def)
  obtain r' where r': "root (render T (?s\<lparr>root := Some (expand r)\<rparr>)) = Some r'"
      and st: "struct r' = struct (expand r)"
    using render_root [of "?s\<lparr>root := Some (expand r)\<rparr>" "expand r" T] by auto
  have ex: "root (expandAll T ?s) = Some r'" using assms r' by (simp add: expandAll_def)
  have un: "\<forall>n\<in>set (all_nodes r'). uchildren n = None"
    by (rule no_uchildren_cong [OF st]) (simp add: expand_no_uchildren)
  have "vis_tree r' = vis_tree (expand r)"
    using st vis_tree_struct [of r'] vis_tree_struct [of "expand r"] by simp
  then have vt: "vis_tree r' = data (attrs r)" using wf by (simp add: vis_tree_expand)
  have "data (attrs r') = data (attrs r)" using data_struct [OF st] by simp
  moreover have "set (visible_nodes r') = set (all_nodes r')"
    using all_nodes_visible [OF un] by simp
  ultimately show ?thesis using ex un vt by simp
qed

text \<open>
  The scenario, built (so that \<open>cat\<close> is hidden) and then expanded: the three
  nodes are visible.
\<close>

theorem expandAll_shows_all_witness:
  "\<exists>r r'. root (run mid_layout [UpdateTree (PObject scenario)] (init 800 500 (Some Hidden))) = Some r
      \<and> length (visible_nodes r) = 2
      \<and> root (expandAll mid_layout
                (run mid_layout [UpdateTree (PObject scenario)] (init 800 500 (Some Hidden)))) = Some r'
      \<and> vis_tree r' = scenario"
proof -
  have "\<exists>r. root (run mid_layout [UpdateTree (PObject scenario)] (init 800 500 (Some Hidden))) = Some r
      \<and> length (visible_nodes r) = 2 \<and> data (attrs r) = scenario"
    by (simp add: eval_defs)
  then obtain r where r: "root (run mid_layout [UpdateTree (PObject scenario)] (init 800 500 (Some Hidden))) = Some r"
      and l: "length (visible_nodes r) = 2" and d: "data (attrs r) = scenario"
    by auto
  from expandAll_shows_all [OF r] d l r show ?thesis by auto
qed

subsection \<open>The slot invariant\<close>

text \<open>
  C4. After any sequence of operations (\<open>updateTree\<close>, \<open>toggleNode\<close>, \<open>collapse\<close>,
  \<open>expandAll\<close>, \<open>collapseAll\<close>, \<open>clearTree\<close>, a resize) on a constructed
  visualization, every node of the tree, in whichever slot it stands, whose
  payload has children has exactly one of \<open>children\<close> and \<open>_children\<close>
  non-empty, and that slot holds the payload's children in order; both slots are
  empty exactly for the nodes whose payload has no children.
\<close>

theorem slots_exclusive:
  assumes "root (run T ops (init w h es)) = Some r" and "n \<in> set (all_nodes r)"
  shows "(td_children (data (attrs n)) \<noteq> [] \<longrightarrow> nonempty (children n) \<noteq> nonempty (uchildren n))
       \<and> ((\<not> nonempty (children n) \<and> \<not> nonempty (uchildren n)) = (td_children (data (attrs n)) = []))
       \<and> (td_children (data (attrs n)) = [] \<longrightarrow> children n = None \<and> uchildren n = None)
       \<and> map (\<lambda>m. data (attrs m)) (kids n) = td_children (data (attrs n))"
proof -
  have "tree_ok (run T ops (init w h es))"
    by (rule tree_ok_run) (rule tree_ok_init)
  then have "wf_node r" using assms(1) by (simp add: tree_ok_def)
  then have "wf_node n" using assms(2) by (rule wf_all_nodes)
  then show ?thesis by (rule wf_slots)
qed

text \<open>
  The scenario, built and then collapsed as a whole: the group \<open>E1\<close> has its one
  child in \<open>_children\<close> and none in \<open>children\<close>.
\<close>

theorem slots_exclusive_witness:
  "\<exists>r n. root (run mid_layout [UpdateTree (PObject scenario), ToggleNode [0], CollapseAll]
                 (init 800 500 (Some Hidden))) = Some r
       \<and> node_at [0] r = Some n \<and> n \<in> set (all_nodes r)
       \<and> td_children (data (attrs n)) \<noteq> []
       \<and> \<not> nonempty (children n) \<and> nonempty (uchildren n)"
proof -
  let ?E1 = "Node \<lparr>data = TreeData (JStr ''E1'') ''entity_group'' [TreeData (JStr ''cat'') ''entity'' []],
                   depth = 1, nid = Some 1, px = Some 230, py = Some 180,
                   px0 = Some 230, py0 = Some 180\<rparr>
               None
               (Some [Node \<lparr>data = TreeData (JStr ''cat'') ''entity'' [], depth = 2, nid = Some 3,
                           px = Some 230, py = Some 360, px0 = Some 230, py0 = Some 360\<rparr>
                        None None])"
  let ?R = "Node \<lparr>data = scenario, depth = 0, nid = Some 2, px = Some 230, py = Some 0,
                  px0 = Some 230, py0 = Some 0\<rparr>
              (Some [?E1]) None"
  have r: "root (run mid_layout [UpdateTree (PObject scenario), ToggleNode [0], CollapseAll]
                  (init 800 500 (Some Hidden))) = Some ?R"
    by (simp add: eval_defs)
  have n: "?E1 \<in> set (all_nodes ?R)" by simp
  have "nonempty (children ?E1) \<noteq> nonempty (uchildren ?E1)"
    using slots_exclusive [OF r n] by simp
  moreover have "\<not> nonempty (children ?E1)" by (simp add: nonempty_def)
  ultimately have "nonempty (uchildren ?E1)" by simp
  then show ?thesis using r n by (simp add: kids_def nonempty_def)
qed

subsection \<open>Where an entering node starts\<close>

text \<open>
  C5, as stated, fails. In the scenario, built, a click on \<open>E1\<close> makes \<open>cat\<close>
  enter (it is given the id 3). Its parent \<open>E1\<close> was at (180, 230); \<open>cat\<close> starts
  at (0, 230), which is where the root was.
\<close>

theorem entering_at_parent_counterexample:
  "nodeEnter mid_layout
     ((run mid_layout [UpdateTree (PObject scenario)] page)
        \<lparr>root := map_option (update_at [0] toggle_children)
                   (root (run mid_layout [UpdateTree (PObject scenario)] page))\<rparr>)
     = [\<lparr>ekey = Some 3, etransform = (Some 0, Some 230)\<rparr>]
   \<and> id_at (toggleNode mid_layout [0] (run mid_layout [UpdateTree (PObject scenario)] page)) [0, 0]
       = Some 3
   \<and> pos0_at (run mid_layout [UpdateTree (PObject scenario)] page) [0] = Some (Some 180, Some 230)
   \<and> pos0_at (run mid_layout [UpdateTree (PObject scenario)] page) [] = Some (Some 0, Some 230)"
  by (simp add: id_at_def pos0_at_def attrs_at_def eval_defs)

text \<open>
  C5, amended. In every \<open>render\<close> of a tree, the entering nodes are the visible
  nodes whose id no drawn element has, and every entering node, whether or not
  it has a parent, is first placed at the root's previous position
  \<open>(root.y0, root.x0)\<close>; the pass then draws each visible node's element at the
  node's own \<open>(y, x)\<close>.
\<close>

theorem entering_at_root_previous:
  assumes "root s = Some r"
  shows "\<exists>r'. root (render T s) = Some r'
       \<and> (\<forall>e\<in>set (nodeEnter T s). etransform e = (py0 (attrs r), px0 (attrs r)))
       \<and> set (map ekey (nodeEnter T s))
           = set (map ekey (scene (render T s))) - set (map ekey (scene s))
       \<and> scene (render T s) = map drawn (visible_nodes r')"
proof -
  obtain r' where r': "root (render T s) = Some r'"
    using render_Some(1) [OF assms] by simp
  have a: "\<forall>e\<in>set (nodeEnter T s). etransform e = (py0 (attrs r), px0 (attrs r))"
    using assms by (auto simp: nodeEnter_def Let_def joined_root_x0)
  have b: "set (map ekey (nodeEnter T s))
           = set (map ekey (scene (render T s))) - set (map ekey (scene s))"
    using assms by (auto simp: nodeEnter_def Let_def scene_render [OF assms] image_iff)
  show ?thesis using r' a b scene_render_root [OF assms r'] by simp
qed

text \<open>
  The scenario again: the one entering node, \<open>cat\<close>, starts where the root was and
  is drawn at (360, 230).
\<close>

theorem entering_at_root_previous_witness:
  "\<exists>r. root ((run mid_layout [UpdateTree (PObject scenario)] page)
              \<lparr>root := map_option (update_at [0] toggle_children)
                         (root (run mid_layout [UpdateTree (PObject scenario)] page))\<rparr>) = Some r
      \<and> (py0 (attrs r), px0 (attrs r)) = (Some 0, Some 230)
      \<and> map etransform (nodeEnter mid_layout
            ((run mid_layout [UpdateTree (PObject scenario)] page)
               \<lparr>root := map_option (update_at [0] toggle_children)
                          (root (run mid_layout [UpdateTree (PObject scenario)] page))\<rparr>))
          = [(py0 (attrs r), px0 (attrs r))]
      \<and> scene (toggleNode mid_layout [0] (run mid_layout [UpdateTree (PObject scenario)] page))
          = [\<lparr>ekey = Some 2, etransform = (Some 0, Some 230)\<rparr>,
             \<lparr>ekey = Some 1, etransform = (Some 180, Some 230)\<rparr>,
             \<lparr>ekey = Some 3, etransform = (Some 360, Some 230)\<rparr>]"
proof -
  let ?s = "(run mid_layout [UpdateTree (PObject scenario)] page)
              \<lparr>root := map_option (update_at [0] toggle_children)
                         (root (run mid_layout [UpdateTree (PObject scenario)] page))\<rparr>"
  have "\<exists>r. root ?s = Some r \<and> (py0 (attrs r), px0 (attrs r)) = (Some 0, Some 230)"
    by (simp add: eval_defs)
  then obtain r where r: "root ?s = Some r" and p: "(py0 (attrs r), px0 (attrs r)) = (Some 0, Some 230)"
    by auto
  have l: "length (nodeEnter mid_layout ?s) = 1" by (simp add: eval_defs)
  have "\<forall>e\<in>set (nodeEnter mid_layout ?s). etransform e = (py0 (attrs r), px0 (attrs r))"
    using entering_at_root_previous [OF r, of mid_layout] by (elim exE conjE)
  then have m: "map etransform (nodeEnter mid_layout ?s) = [(py0 (attrs r), px0 (attrs r))]"
    using l by (cases "nodeEnter mid_layout ?s") auto
  have sc: "scene (toggleNode mid_layout [0] (run mid_layout [UpdateTree (PObject scenario)] page))
          = [\<lparr>ekey = Some 2, etransform = (Some 0, Some 230)\<rparr>,
             \<lparr>ekey = Some 1, etransform = (Some 180, Some 230)\<rparr>,
             \<lparr>ekey = Some 3, etransform = (Some 360, Some 230)\<rparr>]"
    by (simp add: eval_defs)
  show ?thesis
    by (intro exI conjI) (fact r p m sc)+
qed

subsection \<open>The scale of \<open>centerTree\<close>\<close>

text \<open>
  C6, as stated, fails: \<open>centerTree\<close> passes on the scale it computes without
  clamping it. With the scenario built on a viewport of 800 by 500 and drawn
  content of 200 by 100 the scale is 3.6, above the zoom's upper bound 3. (The
  doubles agree: 200 / 800 is exactly 0.25, and the quotient of the double
  nearest 0.9 by 0.25 is above 3.)
\<close>

theorem centerTree_scale_counterexample:
  "centerTree (run mid_layout [UpdateTree (PObject scenario)] (init 800 500 (Some Hidden)))
              \<lparr>bx = 0, by' = 0, bwidth = 200, bheight = 100\<rparr> = Transform 40 70 (18 / 5)
   \<and> \<not> ((18 / 5 :: real) \<le> 3)"
  by (simp add: centerTree_def fit_scale_def eval_defs)

text \<open>
  C6, amended. With a root, a viewport of positive width and height and a
  bounding box that is not empty, \<open>centerTree\<close> hands the zoom the scale
  \<open>0.9 / max (boxWidth / width) (boxHeight / height)\<close>. The scale is positive and
  fits the box within 90% of the viewport in both directions. It is not clamped:
  it lies in [0.1, 3] exactly when the larger of the two ratios lies in
  [0.3, 9].
\<close>

theorem centerTree_scale_fits:
  assumes "root s = Some r" and "0 < width s" and "0 < height s"
    and "0 \<le> bwidth b" and "0 \<le> bheight b" and "0 < bwidth b \<or> 0 < bheight b"
  shows "\<exists>tx ty k. centerTree s b = Transform tx ty k
           \<and> k = 0.9 / max (bwidth b / width s) (bheight b / height s)
           \<and> 0 < k
           \<and> k * bwidth b \<le> 0.9 * width s \<and> k * bheight b \<le> 0.9 * height s
           \<and> ((0.1 \<le> k \<and> k \<le> 3) =
                (0.3 \<le> max (bwidth b / width s) (bheight b / height s)
                 \<and> max (bwidth b / width s) (bheight b / height s) \<le> 9))"
proof -
  define m where "m = max (bwidth b / width s) (bheight b / height s)"
  have "0 < bwidth b / width s \<or> 0 < bheight b / height s"
    using assms by auto
  then have m_pos: "0 < m"
    unfolding m_def by (auto simp: less_max_iff_disj)
  have fs: "fit_scale (width s) (height s) b = Some (0.9 / m)"
    using m_pos by (simp add: fit_scale_def m_def [symmetric] Let_def)
  have w: "bwidth b / width s \<le> m" and h: "bheight b / height s \<le> m"
    by (simp_all add: m_def)
  have kw: "0.9 / m * bwidth b \<le> 0.9 * width s"
  proof -
    have "bwidth b \<le> m * width s" using w assms(2) by (simp add: pos_divide_le_eq)
    then have "0.9 * bwidth b \<le> 0.9 * (m * width s)" by simp
    then have "0.9 * bwidth b / m \<le> 0.9 * width s"
      using m_pos by (simp add: pos_divide_le_eq mult.commute mult.left_commute)
    then show ?thesis by simp
  qed
  have kh: "0.9 / m * bheight b \<le> 0.9 * height s"
  proof -
    have "bheight b \<le> m * height s" using h assms(3) by (simp add: pos_divide_le_eq)
    then have "0.9 * bheight b \<le> 0.9 * (m * height s)" by simp
    then have "0.9 * bheight b / m \<le> 0.9 * height s"
      using m_pos by (simp add: pos_divide_le_eq mult.commute mult.left_commute)
    then show ?thesis by simp
  qed
  have rng: "(0.1 \<le> 0.9 / m \<and> 0.9 / m \<le> 3) = (0.3 \<le> m \<and> m \<le> 9)"
    using m_pos by (auto simp: pos_le_divide_eq pos_divide_le_eq)
  have "centerTree s b = Transform (width s / 2 - 0.9 / m * (bx b + bwidth b / 2))
          (height s / 2 - 0.9 / m * (by' b + bheight b / 2)) (0.9 / m)"
    using assms(1) fs by (simp add: centerTree_def Let_def)
  moreover have "0 < 0.9 / m" using m_pos by simp
  ultimately show ?thesis using kw kh rng unfolding m_def by blast
qed

theorem centerTree_scale_fits_witness:
  "centerTree (run mid_layout [UpdateTree (PObject scenario)] (init 800 500 (Some Hidden)))
              \<lparr>bx = 0, by' = 0, bwidth = 400, bheight = 100\<rparr> = Transform 40 160 (9 / 5)
   \<and> (0.1 :: real) \<le> 9 / 5 \<and> (9 / 5 :: real) \<le> 3"
proof -
  let ?s = "run mid_layout [UpdateTree (PObject scenario)] (init 800 500 (Some Hidden))"
  let ?b = "\<lparr>bx = 0, by' = 0, bwidth = 400, bheight = 100\<rparr>"
  have "\<exists>r. root ?s = Some r" by (simp add: eval_defs)
  then obtain r where r: "root ?s = Some r" by auto
  have wh: "width ?s = 800" "height ?s = 500" by (simp_all add: eval_defs)
  obtain tx ty k where t: "centerTree ?s ?b = Transform tx ty k"
    and k: "k = 0.9 / max (bwidth ?b / width ?s) (bheight ?b / height ?s)"
    using centerTree_scale_fits [OF r, of ?b] wh by auto
  have "k = 9 / 5" using k wh by simp
  moreover have "centerTree ?s ?b = Transform 40 160 (9 / 5)"
    using r wh by (simp add: centerTree_def fit_scale_def Let_def)
  ultimately show ?thesis by simp
qed

subsection \<open>Ids\<close>

text \<open>
  C7. Let \<open>s\<close> be the state after any sequence of operations. A second \<open>render\<close>
  right after a first one gives every node (every path) the id it had and leaves
  the counter where it was, and after a render every visible node has an id.
  The ids in the tree are at least 1 and at most the counter, and no two nodes
  have the same id. An operation that keeps the tree (a toggle, a collapse,
  \<open>expandAll\<close>, \<open>collapseAll\<close>, a resize) leaves every node the id it has,
  visible or not; every operation leaves the counter at least where it was; and
  an id that a node has after an operation and did not have before is above the
  counter's former value, so above every id given before.
\<close>

theorem ids_stable:
  assumes "s = run T ops (init w h es)"
  shows "nodeId (render T (render T s)) = nodeId (render T s)
       \<and> (\<forall>p. id_at (render T (render T s)) p = id_at (render T s) p)
       \<and> (\<forall>r p. root (render T s) = Some r \<and> p \<in> set (descendants r) \<longrightarrow> id_at (render T s) p \<noteq> None)
       \<and> (\<forall>p i. id_at s p = Some i \<longrightarrow> 0 < i \<and> i \<le> nodeId s)
       \<and> (\<forall>p q i. id_at s p = Some i \<and> id_at s q = Some i \<longrightarrow> p = q)
       \<and> (\<forall>o' p i. keeps_tree o' \<and> id_at s p = Some i \<longrightarrow> id_at (exec T o' s) p = Some i)
       \<and> (\<forall>o' p i. id_at (exec T o' s) p = Some i
             \<longrightarrow> (keeps_tree o' \<and> id_at s p = Some i) \<or> nodeId s < i)
       \<and> (\<forall>o'. nodeId s \<le> nodeId (exec T o' s))"
proof -
  have ok: "tree_ok s" unfolding assms by (rule tree_ok_run) (rule tree_ok_init)
  have inv: "ids_inv s" unfolding assms by (rule ids_inv_run) (rule tree_ok_init, rule ids_inv_init)
  have twice: "nodeId (render T (render T s)) = nodeId (render T s)
             \<and> (\<forall>p. id_at (render T (render T s)) p = id_at (render T s) p)"
  proof (cases "root s")
    case None
    then show ?thesis by (simp add: render_None)
  next
    case (Some r)
    then show ?thesis using render_twice_ids [OF Some, of T] by simp
  qed
  then have twice1: "nodeId (render T (render T s)) = nodeId (render T s)"
    and twice2: "\<forall>p. id_at (render T (render T s)) p = id_at (render T s) p"
    by simp_all
  have keyed: "\<forall>r p. root (render T s) = Some r \<and> p \<in> set (descendants r) \<longrightarrow> id_at (render T s) p \<noteq> None"
  proof (intro allI impI)
    fix r' p
    assume h: "root (render T s) = Some r' \<and> p \<in> set (descendants r')"
    then obtain r where r: "root s = Some r"
      by (cases "root s") (auto simp: render_None)
    have "p \<in> set (descendants r)" using h descendants_render [OF r, of T r'] by simp
    then have k: "keyed p r'" using h render_keyed [OF r, of T r' p] by simp
    obtain n where "visible_at p r' = Some n" using h by (auto simp: descendants_visible)
    then have "attrs_at p r' = Some (attrs n)"
      using visible_node_at by (simp add: attrs_at_def)
    then show "id_at (render T s) p \<noteq> None"
      using k h by (auto simp: keyed_def id_at_def id_falsy_def split: option.splits)
  qed
  have bounds: "\<forall>p i. id_at s p = Some i \<longrightarrow> 0 < i \<and> i \<le> nodeId s"
    using inv unfolding ids_inv_def ids_ok_def id_at_def
    by (auto split: option.splits)
  have inj: "\<forall>p q i. id_at s p = Some i \<and> id_at s q = Some i \<longrightarrow> p = q"
  proof (intro allI impI)
    fix p q i assume h: "id_at s p = Some i \<and> id_at s q = Some i"
    then obtain r a b where "root s = Some r" "attrs_at p r = Some a" "nid a = Some i"
        "attrs_at q r = Some b" "nid b = Some i"
      by (auto simp: id_at_def split: option.splits)
    then show "p = q" using inv unfolding ids_inv_def ids_ok_def by auto
  qed
  have keep: "\<forall>o' p i. keeps_tree o' \<and> id_at s p = Some i \<longrightarrow> id_at (exec T o' s) p = Some i"
    using exec_ids(2) [OF ok inv] by blast
  have fresh: "\<forall>o' p i. id_at (exec T o' s) p = Some i
             \<longrightarrow> (keeps_tree o' \<and> id_at s p = Some i) \<or> nodeId s < i"
    using exec_ids(3) [OF ok inv] by blast
  have mono: "\<forall>o'. nodeId s \<le> nodeId (exec T o' s)"
    using exec_ids(4) [OF ok inv] by blast
  show ?thesis
    by (intro conjI) (fact twice1 twice2 keyed bounds inj keep fresh mono)+
qed

text \<open>
  The scenario: \<open>cat\<close> is given the id 3 when \<open>E1\<close> is first expanded; hidden again
  by a second toggle, it keeps the id 3, and the counter stays at 3.
\<close>

theorem ids_stable_witness:
  "id_at (run mid_layout [UpdateTree (PObject scenario), ToggleNode [0]] (init 800 500 (Some Hidden))) [0, 0]
     = Some 3
   \<and> keeps_tree (ToggleNode [0])
   \<and> id_at (exec mid_layout (ToggleNode [0])
        (run mid_layout [UpdateTree (PObject scenario), ToggleNode [0]] (init 800 500 (Some Hidden)))) [0, 0]
     = Some 3
   \<and> nodeId (exec mid_layout (ToggleNode [0])
        (run mid_layout [UpdateTree (PObject scenario), ToggleNode [0]] (init 800 500 (Some Hidden)))) = 3"
proof -
  let ?s = "run mid_layout [UpdateTree (PObject scenario), ToggleNode [0]] (init 800 500 (Some Hidden))"
  have a: "id_at ?s [0, 0] = Some 3" by (simp add: id_at_def attrs_at_def eval_defs)
  have b: "keeps_tree (ToggleNode [0])" by simp
  have "\<forall>o' p i. keeps_tree o' \<and> id_at ?s p = Some i \<longrightarrow> id_at (exec mid_layout o' ?s) p = Some i"
    using ids_stable [OF refl, of mid_layout "[UpdateTree (PObject scenario), ToggleNode [0]]"
        800 500 "Some Hidden"]
    by (elim conjE) assumption
  then have c: "id_at (exec mid_layout (ToggleNode [0]) ?s) [0, 0] = Some 3"
    using a b by blast
  have d: "nodeId (exec mid_layout (ToggleNode [0]) ?s) = 3" by (simp add: eval_defs)
  show ?thesis using a b c d by simp
qed

subsection \<open>The depth axis\<close>

text \<open>
  C8. After every \<open>render\<close> of a tree, every visible node, that is, every node
  reached from the root through \<open>children\<close> slots, has as its depth-axis
  coordinate \<open>y\<close> its \<open>depth\<close> times 180; neither the width nor the height of
  the viewport enters. Hence of two visible nodes the one of smaller depth has
  the strictly smaller \<open>y\<close>. In a state that a sequence of operations has left,
  the \<open>depth\<close> of a visible node is the number of steps from the root to it.
\<close>

theorem depth_axis:
  assumes "root s = Some r"
  shows "\<exists>r'. root (render T s) = Some r'
           \<and> (\<forall>p n. visible_at p r' = Some n \<longrightarrow> py (attrs n) = Some (real (depth (attrs n)) * 180))
           \<and> (\<forall>p q a b. visible_at p r' = Some a \<and> visible_at q r' = Some b
                  \<and> depth (attrs a) < depth (attrs b)
                \<longrightarrow> (\<exists>ya yb. py (attrs a) = Some ya \<and> py (attrs b) = Some yb \<and> ya < yb))
           \<and> ((\<exists>ops w h es. s = run T ops (init w h es))
                \<longrightarrow> (\<forall>p n. visible_at p r' = Some n \<longrightarrow> depth (attrs n) = length p))"
proof -
  obtain r' where r': "root (render T s) = Some r'"
    using render_Some(1) [OF assms] by simp
  have y: "py (attrs n) = Some (real (depth (attrs n)) * 180)" if "visible_at p r' = Some n" for p n
  proof -
    have "p \<in> set (descendants r')" using that by (simp add: descendants_visible)
    then have "p \<in> set (descendants r)" using descendants_render [OF assms r'] by simp
    moreover have "attrs_at p r' = Some (attrs n)"
      using visible_node_at [OF that] by (simp add: attrs_at_def)
    ultimately show ?thesis by (rule render_py [OF assms r'])
  qed
  have lt: "\<exists>ya yb. py (attrs a) = Some ya \<and> py (attrs b) = Some yb \<and> ya < yb"
    if "visible_at p r' = Some a \<and> visible_at q r' = Some b \<and> depth (attrs a) < depth (attrs b)"
    for p q a b
  proof -
    have "py (attrs a) = Some (real (depth (attrs a)) * 180)"
      and "py (attrs b) = Some (real (depth (attrs b)) * 180)"
      using that y by blast+
    then show ?thesis using that by simp
  qed
  have dp: "depth (attrs n) = length p"
    if "\<exists>ops w h es. s = run T ops (init w h es)" and "visible_at p r' = Some n" for p n
  proof -
    have "depth_inv s" using that(1) depth_inv_run [OF depth_inv_init] by auto
    then have "depth_inv (render T s)" by (rule depth_inv_render)
    then have "depth_ok 0 r'" using r' by (simp add: depth_inv_def)
    then show ?thesis using depth_visible [OF _ that(2)] by simp
  qed
  show ?thesis
    using r' y lt dp by (intro exI [of _ r'] conjI allI impI) blast+
qed

text \<open>
  The scenario, built, with \<open>E1\<close> expanded: root, \<open>E1\<close> and \<open>cat\<close> stand at 0, 180
  and 360.
\<close>

theorem depth_axis_witness:
  "\<exists>r r'. root (toggleNode mid_layout [0] (run mid_layout [UpdateTree (PObject scenario)] page)) = Some r
      \<and> root (render mid_layout
                (toggleNode mid_layout [0] (run mid_layout [UpdateTree (PObject scenario)] page))) = Some r'
      \<and> map (\<lambda>n. py (attrs n)) (visible_nodes r') = [Some 0, Some 180, Some 360]
      \<and> (\<forall>p n. visible_at p r' = Some n \<longrightarrow> py (attrs n) = Some (real (depth (attrs n)) * 180))"
proof -
  let ?s = "toggleNode mid_layout [0] (run mid_layout [UpdateTree (PObject scenario)] page)"
  have "\<exists>r. root ?s = Some r" by (simp add: eval_defs)
  then obtain r where r: "root ?s = Some r" by auto
  have "\<exists>r'. root (render mid_layout ?s) = Some r'
          \<and> map (\<lambda>n. py (attrs n)) (visible_nodes r') = [Some 0, Some 180, Some 360]"
    by (simp add: eval_defs)
  then obtain r' where r': "root (render mid_layout ?s) = Some r'"
      and ys: "map (\<lambda>n. py (attrs n)) (visible_nodes r') = [Some 0, Some 180, Some 360]"
    by auto
  have al: "\<forall>p n. visible_at p r' = Some n \<longrightarrow> py (attrs n) = Some (real (depth (attrs n)) * 180)"
    using depth_axis [OF r, of mid_layout] r' by (elim exE conjE) simp
  show ?thesis
    by (intro exI conjI) (fact r r' ys al)+
qed

subsection \<open>Payloads that are no data\<close>

text \<open>
  C9. \<open>updateTree(null)\<close>, \<open>updateTree(undefined)\<close> and \<open>updateTree\<close> of an object
  without a \<open>name\<close> field throw nothing (the result is \<open>Inr\<close>) and do what
  \<open>clearTree\<close> does: \<open>root\<close> becomes \<open>null\<close>, the empty-state element, where the
  page has one, is displayed as a block, nothing stays drawn, and the counter is
  untouched.
\<close>

theorem updateTree_no_data_clears:
  assumes "treeData = PNull \<or> treeData = PUndefined
           \<or> (\<exists>d. treeData = PObject d \<and> name d = JUndefined)"
  shows "updateTree T treeData s = Inr (clearTree s)
       \<and> root (clearTree s) = None
       \<and> emptyState (clearTree s) = map_option (\<lambda>_. Block) (emptyState s)
       \<and> scene (clearTree s) = []
       \<and> nodeId (clearTree s) = nodeId s"
  using assms by (auto simp: updateTree_def no_data_def clearTree_def showEmptyState_def)

theorem updateTree_no_data_clears_witness:
  "updateTree mid_layout PNull (init 800 500 (Some Hidden))
     = Inr (clearTree (init 800 500 (Some Hidden)))
   \<and> root (clearTree (init 800 500 (Some Hidden))) = None
   \<and> emptyState (clearTree (init 800 500 (Some Hidden))) = Some Block"
  using updateTree_no_data_clears [of PNull mid_layout "init 800 500 (Some Hidden)"]
  by (simp add: init_def updateDimensions_def)

text \<open>
  C10. A payload object whose \<open>name\<close> is present but falsy (the empty string, 0,
  \<open>false\<close>, \<open>null\<close>) is treated as an absent name: \<open>updateTree\<close> clears to the
  empty state and builds nothing. So, whatever the operations, the root of a
  tree that exists has a truthy name.
\<close>

theorem falsy_name_is_no_data:
  "(\<not> truthy (name d) \<longrightarrow>
      updateTree T (PObject d) s = Inr (clearTree s) \<and> root (clearTree s) = None)
   \<and> (\<forall>r. root (run T ops (init w h es)) = Some r \<longrightarrow> truthy (name (data (attrs r))))"
proof -
  have "tree_ok (run T ops (init w h es))"
    by (rule tree_ok_run) (rule tree_ok_init)
  then show ?thesis
    by (auto simp: updateTree_def no_data_def clearTree_def tree_ok_def)
qed

theorem falsy_name_is_no_data_witness:
  "\<not> truthy (name unnamed_root)
   \<and> updateTree mid_layout (PObject unnamed_root) page = Inr (clearTree page)
   \<and> root (clearTree page) = None
   \<and> (\<exists>r. root (run mid_layout [UpdateTree (PObject scenario)] (init 800 500 (Some Hidden))) = Some r
          \<and> truthy (name (data (attrs r))))"
proof -
  note inst = falsy_name_is_no_data [of unnamed_root mid_layout page
      "[UpdateTree (PObject scenario)]" 800 500 "Some Hidden"]
  have f: "\<not> truthy (name unnamed_root)" by (simp add: unnamed_root_def)
  have "\<exists>r. root (run mid_layout [UpdateTree (PObject scenario)] (init 800 500 (Some Hidden))) = Some r"
    by (simp add: eval_defs)
  then show ?thesis using inst f by auto
qed

end
